theory Spec2Isabelle
  imports Main "HOL-Library.Word" "HOL-Library.Signed_Division"
begin

section \<open>The SUBARUU interpreter (src/subaruu.cc)\<close>

text \<open>
  A shallow embedding of the statement and expression evaluator of the SUBARUU BASIC
  interpreter. Every member function of the class \<open>SUBARUU\<close> becomes a function on an
  explicit interpreter state; a function that can throw returns a sum, with \<open>Inl\<close> for the
  message of the fatal error that \<open>dprintf\<close> reports and throws.
\<close>

subsection \<open>Tokens and the token source\<close>

datatype TokenType =
    NUMBER | LETTER | STRING | SEPARATOR | PLUS | MINUS | ASTERISK | SLASH
  | EQUAL | LT | GT | LT_EQ | GT_EQ | NOT_EQUAL | LEFT_PAREN | RIGHT_PAREN
  | EOL | EOF_TOKEN | LET | IF | THEN | GOTO | PRINT | REM

text \<open>
  The C++ type \<open>int\<close>: a 32-bit two's complement word. \<open>+\<close>, \<open>-\<close> and \<open>*\<close> wrap around
  (signed overflow is undefined in C++; the model takes the wrap-around of the usual
  targets), comparisons read the word with \<open>sint\<close>. Division does not wrap: see
  \<open>safe_divide\<close>.
\<close>

type_synonym cint = "32 word"

text \<open>
  Modelled from the spec: the token source (class \<open>Tokenizer\<close>, declared in
  include/tokenizer.h, is not part of the evaluator's file). The spec gives its interface:
  \<open>current_token\<close>, \<open>next_token\<close>, \<open>reset\<close>, \<open>finished\<close>, \<open>peek_char\<close>, \<open>get_num\<close>,
  \<open>get_string\<close>, \<open>get_token_data\<close> and \<open>skip_to_eol\<close>. A token source is the sequence of
  tokens of the program and a cursor into it. Each position carries all that the evaluator
  can observe there: the kind of the token, its payloads, the raw character that
  \<open>peek_char\<close> shows while the token is current, and what \<open>finished\<close> answers. Beyond the
  last token the source shows the end-of-file token and is finished.
\<close>

record token =
  kind :: TokenType
  num :: cint
  letter :: char
  str :: string
  peek :: char
  fin :: bool

record Tokenizer =
  program :: "token list"
  pos :: nat

definition eof_entry :: token where
  "eof_entry = \<lparr>kind = EOF_TOKEN, num = 0, letter = CHR 0x00, str = [],
                 peek = CHR 0x00, fin = True\<rparr>"

definition current_entry :: "Tokenizer \<Rightarrow> token" where
  "current_entry t = (if pos t < length (program t) then program t ! pos t else eof_entry)"

definition current_token :: "Tokenizer \<Rightarrow> TokenType" where
  "current_token t = kind (current_entry t)"

definition get_num :: "Tokenizer \<Rightarrow> cint" where
  "get_num t = num (current_entry t)"

definition get_token_data :: "Tokenizer \<Rightarrow> char" where
  "get_token_data t = letter (current_entry t)"

definition get_string :: "Tokenizer \<Rightarrow> string" where
  "get_string t = str (current_entry t)"

definition peek_char :: "Tokenizer \<Rightarrow> char" where
  "peek_char t = peek (current_entry t)"

definition finished :: "Tokenizer \<Rightarrow> bool" where
  "finished t = fin (current_entry t)"

definition next_token :: "Tokenizer \<Rightarrow> Tokenizer" where
  "next_token t = (if pos t < length (program t) then t\<lparr>pos := Suc (pos t)\<rparr> else t)"

definition reset :: "Tokenizer \<Rightarrow> Tokenizer" where
  "reset t = t\<lparr>pos := 0\<rparr>"

text \<open>\<open>skip_to_eol\<close>: advance past all tokens through the next end-of-line.\<close>

function skip_to_eol :: "Tokenizer \<Rightarrow> Tokenizer" where
  "skip_to_eol t =
     (if pos t < length (program t) then
        (if current_token t = EOL then next_token t else skip_to_eol (next_token t))
      else t)"
  by pat_completeness auto
termination skip_to_eol
  by (relation "measure (\<lambda>t. length (program t) - pos t)") (auto simp: next_token_def)

declare skip_to_eol.simps [simp del]

subsection \<open>The interpreter state\<close>

datatype errorCode = E_ERROR | E_WARNING

text \<open>
  The messages handed to \<open>dprintf\<close>, one constructor for each message text of the source:
  \<^item> \<open>Unexpected found expected\<close>: "*subaruu.cpp: unexpected `found` expected `expected`";
  \<^item> \<open>UnexpectedInFactor t\<close>: "Syntax Error: Unexpected token in factor: t";
  \<^item> \<open>DivideByZero\<close>: "*warning: divide by zero";
  \<^item> \<open>InvalidComparison\<close>: "Internal Error: Invalid comparison operator";
  \<^item> \<open>ExpectedVariableName\<close>: "Syntax Error: Expected variable name";
  \<^item> \<open>ExpectedLineNumber\<close>: "Syntax Error: Expected line number after THEN";
  \<^item> \<open>LineNotFound n\<close>: "Runtime Error: Line number n not found";
  \<^item> \<open>FailedToFind n\<close>: "Internal Error: Failed to find valid line number n";
  \<^item> \<open>UnrecognizedStatement\<close>: "Syntax Error: Unrecognized statement".

  \<open>DivisionOverflow\<close> is no message of \<open>dprintf\<close>: it stands for the end of a run at
  the division \<open>INT_MIN / -1\<close>, which nothing reports (see \<open>safe_divide\<close>).
\<close>

datatype message =
    Unexpected TokenType TokenType
  | UnexpectedInFactor TokenType
  | DivideByZero
  | InvalidComparison
  | ExpectedVariableName
  | ExpectedLineNumber
  | LineNotFound cint
  | FailedToFind cint
  | UnrecognizedStatement
  | DivisionOverflow

text \<open>
  The members of the class, with the two output streams: \<open>cout\<close> is the text written to
  standard output, \<open>cerr\<close> the diagnostics written to standard error by calls of
  \<open>dprintf\<close> that returned.
\<close>

record SUBARUU =
  tokenizer :: Tokenizer
  variables :: "char \<rightharpoonup> cint"
  line_positions :: "cint \<rightharpoonup> bool"
  execution_finished :: bool
  skip_to_line :: bool
  target_line :: cint
  cout :: string
  cerr :: "(errorCode \<times> message) list"

type_synonym 'a result = "message + 'a"

text \<open>The constructor: all variables \<open>a\<close> to \<open>z\<close> are set to 0.\<close>

definition lowercase_letters :: "char list" where
  "lowercase_letters = ''abcdefghijklmnopqrstuvwxyz''"

definition SUBARUU_init :: "token list \<Rightarrow> SUBARUU" where
  "SUBARUU_init source =
     \<lparr>tokenizer = \<lparr>program = source, pos = 0\<rparr>,
      variables = fold (\<lambda>c m. m(c \<mapsto> 0)) lowercase_letters Map.empty,
      line_positions = Map.empty,
      execution_finished = False,
      skip_to_line = False,
      target_line = - 1,
      cout = [],
      cerr = []\<rparr>"

text \<open>\<open>tok s\<close> is \<open>tokenizer_->current_token()\<close>, \<open>advance s\<close> is \<open>tokenizer_->next_token()\<close>.\<close>

definition tok :: "SUBARUU \<Rightarrow> TokenType" where
  "tok s = current_token (tokenizer s)"

definition advance :: "SUBARUU \<Rightarrow> SUBARUU" where
  "advance s = s\<lparr>tokenizer := next_token (tokenizer s)\<rparr>"

text \<open>
  \<open>dprintf\<close> prints the message to standard error; for \<open>E_ERROR\<close> it then throws
  \<open>std::runtime_error\<close>, which nothing in the class catches: the run is over, with the
  message as its outcome.
\<close>

definition dprintf :: "message \<Rightarrow> errorCode \<Rightarrow> SUBARUU \<Rightarrow> SUBARUU result" where
  "dprintf msg errorCode s =
     (if errorCode = E_ERROR then Inl msg
      else Inr (s\<lparr>cerr := cerr s @ [(E_WARNING, msg)]\<rparr>))"

definition accept :: "TokenType \<Rightarrow> SUBARUU \<Rightarrow> SUBARUU result" where
  "accept expectedToken s =
     (if tok s \<noteq> expectedToken then
        (case dprintf (Unexpected (tok s) expectedToken) E_ERROR s of
           Inl e \<Rightarrow> Inl e
         | Inr s' \<Rightarrow> Inr (advance s'))
      else Inr (advance s))"

subsection \<open>Expressions\<close>

text \<open>\<open>std::tolower\<close> in the C locale.\<close>

definition tolower :: "char \<Rightarrow> char" where
  "tolower c =
     (let n = (of_char c :: nat) in if 65 \<le> n \<and> n \<le> 90 then char_of (n + 32) else c)"

definition is_valid_line_number :: "cint \<Rightarrow> SUBARUU \<Rightarrow> bool" where
  "is_valid_line_number n s =
     (if 10 \<le> sint n \<and> sint n smod 10 = 0 then
        (if finished (tokenizer s) then True
         else (let next_char = peek_char (tokenizer s)
               in next_char = CHR '' '' \<or> next_char = CHR 0x0A \<or> next_char = CHR 0x0D))
      else False)"

text \<open>
  \<open>numerator / denominator\<close> on \<open>int\<close> truncates towards zero. The function guards the
  divisor 0 and nothing else. The one quotient that is no \<open>int\<close>, \<open>INT_MIN / -1\<close>, reaches
  the division: there the division is undefined in C++, and on the usual targets the
  division instruction traps and the process is killed (SIGFPE), with no diagnostic. The
  run ends there; the model returns \<open>Inl DivisionOverflow\<close>.
\<close>

definition safe_divide :: "cint \<Rightarrow> cint \<Rightarrow> SUBARUU \<Rightarrow> (cint \<times> SUBARUU) result" where
  "safe_divide numerator denominator s =
     (if denominator = 0 then
        (case dprintf DivideByZero E_WARNING s of
           Inl e \<Rightarrow> Inl e
         | Inr s' \<Rightarrow> Inr (0, s'))
      else if sint numerator = - (2 ^ 31) \<and> sint denominator = - 1 then Inl DivisionOverflow
      else Inr (word_of_int (sint numerator sdiv sint denominator), s))"

text \<open>
  \<open>factor\<close>, \<open>term\<close> and \<open>expression\<close> call each other; the two \<open>while\<close> loops are the
  functions \<open>term_loop\<close> and \<open>expression_loop\<close>, whose first argument is the local
  \<open>result\<close>. (\<open>term\<close> is written \<open>term'\<close>.)
\<close>

function factor :: "SUBARUU \<Rightarrow> (cint \<times> SUBARUU) result"
  and term_loop :: "cint \<Rightarrow> SUBARUU \<Rightarrow> (cint \<times> SUBARUU) result"
  and term' :: "SUBARUU \<Rightarrow> (cint \<times> SUBARUU) result"
  and expression_loop :: "cint \<Rightarrow> SUBARUU \<Rightarrow> (cint \<times> SUBARUU) result"
  and expression :: "SUBARUU \<Rightarrow> (cint \<times> SUBARUU) result"
where
  "factor s =
     (case tok s of
        NUMBER \<Rightarrow> Inr (get_num (tokenizer s), advance s)
      | LETTER \<Rightarrow>
          (let var_name = tolower (get_token_data (tokenizer s));
               result = (case variables s var_name of Some v \<Rightarrow> v | None \<Rightarrow> 0)
           in Inr (result, advance s))
      | LEFT_PAREN \<Rightarrow>
          (case expression (advance s) of
             Inl e \<Rightarrow> Inl e
           | Inr (result, s1) \<Rightarrow>
               (case accept RIGHT_PAREN s1 of
                  Inl e \<Rightarrow> Inl e
                | Inr s2 \<Rightarrow> Inr (result, s2)))
      | _ \<Rightarrow>
          (case dprintf (UnexpectedInFactor (tok s)) E_ERROR s of
             Inl e \<Rightarrow> Inl e
           | Inr s' \<Rightarrow> Inr (0, s')))"
| "term_loop result s =
     (if tok s = ASTERISK \<or> tok s = SLASH then
        (case factor (advance s) of
           Inl e \<Rightarrow> Inl e
         | Inr (factor_value, s1) \<Rightarrow>
             (if tok s = ASTERISK then term_loop (result * factor_value) s1
              else (case safe_divide result factor_value s1 of
                      Inl e \<Rightarrow> Inl e
                    | Inr (r, s2) \<Rightarrow> term_loop r s2)))
      else Inr (result, s))"
| "term' s =
     (case factor s of
        Inl e \<Rightarrow> Inl e
      | Inr (result, s1) \<Rightarrow> term_loop result s1)"
| "expression_loop result s =
     (if tok s = PLUS \<or> tok s = MINUS then
        (case term' (advance s) of
           Inl e \<Rightarrow> Inl e
         | Inr (term_value, s1) \<Rightarrow>
             (if tok s = PLUS then expression_loop (result + term_value) s1
              else expression_loop (result - term_value) s1))
      else Inr (result, s))"
| "expression s =
     (case term' s of
        Inl e \<Rightarrow> Inl e
      | Inr (result, s1) \<Rightarrow>
          (if tok s1 = NUMBER \<and> is_valid_line_number (get_num (tokenizer s1)) s1
           then Inr (result, s1)
           else expression_loop result s1))"
  by pat_completeness auto

text \<open>
  Termination: every successful \<open>factor\<close> consumes a token, so the number of tokens that
  remain after the cursor decreases along the calls.
\<close>

definition remaining :: "SUBARUU \<Rightarrow> nat" where
  "remaining s = length (program (tokenizer s)) - pos (tokenizer s)"

lemma remaining_advance_le: "remaining (advance s) \<le> remaining s"
  by (auto simp: remaining_def advance_def next_token_def)

lemma tok_not_EOF_in_range:
  "tok s \<noteq> EOF_TOKEN \<Longrightarrow> pos (tokenizer s) < length (program (tokenizer s))"
  by (auto simp: tok_def current_token_def current_entry_def eof_entry_def split: if_splits)

lemma remaining_advance_less: "tok s \<noteq> EOF_TOKEN \<Longrightarrow> remaining (advance s) < remaining s"
  using tok_not_EOF_in_range [of s]
  by (simp add: remaining_def advance_def next_token_def)

lemma remaining_accept: "accept t s = Inr s' \<Longrightarrow> remaining s' \<le> remaining s"
  by (auto simp: accept_def dprintf_def remaining_advance_le split: if_splits)

lemma remaining_safe_divide: "safe_divide a b s = Inr (r, s') \<Longrightarrow> remaining s' = remaining s"
  by (auto simp: safe_divide_def dprintf_def remaining_def split: if_splits)

lemma remaining_partial:
  "factor_term_loop_term'_expression_loop_expression_dom (Inl (Inl s)) \<Longrightarrow>
     (\<forall>v s'. factor s = Inr (v, s') \<longrightarrow> remaining s' < remaining s)"
  "factor_term_loop_term'_expression_loop_expression_dom (Inl (Inr (r, s))) \<Longrightarrow>
     (\<forall>v s'. term_loop r s = Inr (v, s') \<longrightarrow> remaining s' \<le> remaining s)"
  "factor_term_loop_term'_expression_loop_expression_dom (Inr (Inl s)) \<Longrightarrow>
     (\<forall>v s'. term' s = Inr (v, s') \<longrightarrow> remaining s' < remaining s)"
  "factor_term_loop_term'_expression_loop_expression_dom (Inr (Inr (Inl (r, s)))) \<Longrightarrow>
     (\<forall>v s'. expression_loop r s = Inr (v, s') \<longrightarrow> remaining s' \<le> remaining s)"
  "factor_term_loop_term'_expression_loop_expression_dom (Inr (Inr (Inr s))) \<Longrightarrow>
     (\<forall>v s'. expression s = Inr (v, s') \<longrightarrow> remaining s' < remaining s)"
proof (induction rule: factor_term_loop_term'_expression_loop_expression.pinduct)
  case (1 s)
  show ?case
  proof (intro allI impI)
    fix v s' assume a: "factor s = Inr (v, s')"
    show "remaining s' < remaining s"
    proof (cases "tok s = LEFT_PAREN")
      case True
      with a "1.hyps" obtain s1 where e: "expression (advance s) = Inr (v, s1)"
        and acc: "accept RIGHT_PAREN s1 = Inr s'"
        by (auto simp: factor.psimps split: sum.splits)
      from "1.IH" True e have "remaining s1 < remaining (advance s)" by blast
      with remaining_accept [OF acc] remaining_advance_le [of s] show ?thesis by linarith
    next
      case False
      with a "1.hyps" have "s' = advance s" "tok s \<noteq> EOF_TOKEN"
        by (auto simp: factor.psimps dprintf_def Let_def split: TokenType.splits)
      then show ?thesis by (simp add: remaining_advance_less)
    qed
  qed
next
  case (2 result s)
  show ?case
  proof (intro allI impI)
    fix v s' assume a: "term_loop result s = Inr (v, s')"
    show "remaining s' \<le> remaining s"
    proof (cases "tok s = ASTERISK \<or> tok s = SLASH")
      case False
      with a "2.hyps" show ?thesis by (simp add: term_loop.psimps)
    next
      case True
      with a "2.hyps" obtain fv s1 where f: "factor (advance s) = Inr (fv, s1)"
        by (auto simp: term_loop.psimps split: sum.splits)
      from "2.IH"(1) True f have l1: "remaining s1 < remaining (advance s)" by blast
      show ?thesis
      proof (cases "tok s = ASTERISK")
        case A: True
        with a "2.hyps" f have "term_loop (result * fv) s1 = Inr (v, s')"
          by (simp add: term_loop.psimps)
        with "2.IH"(2) [OF True f refl A] have "remaining s' \<le> remaining s1" by blast
        with l1 remaining_advance_le [of s] show ?thesis by linarith
      next
        case B: False
        with a "2.hyps" f True obtain r2 s2 where sd: "safe_divide result fv s1 = Inr (r2, s2)"
          and t: "term_loop r2 s2 = Inr (v, s')"
          by (auto simp: term_loop.psimps split: sum.splits)
        from "2.IH"(3) [OF True f refl B sd refl] t have "remaining s' \<le> remaining s2" by blast
        with l1 remaining_advance_le [of s] remaining_safe_divide [OF sd] show ?thesis
          by linarith
      qed
    qed
  qed
next
  case (3 s)
  show ?case
  proof (intro allI impI)
    fix v s' assume a: "term' s = Inr (v, s')"
    with "3.hyps" obtain r s1 where f: "factor s = Inr (r, s1)"
      and t: "term_loop r s1 = Inr (v, s')"
      by (auto simp: term'.psimps split: sum.splits)
    from "3.IH"(1) f have "remaining s1 < remaining s" by blast
    moreover from "3.IH"(2) [OF f refl] t have "remaining s' \<le> remaining s1" by blast
    ultimately show "remaining s' < remaining s" by linarith
  qed
next
  case (4 result s)
  show ?case
  proof (intro allI impI)
    fix v s' assume a: "expression_loop result s = Inr (v, s')"
    show "remaining s' \<le> remaining s"
    proof (cases "tok s = PLUS \<or> tok s = MINUS")
      case False
      with a "4.hyps" show ?thesis by (simp add: expression_loop.psimps)
    next
      case True
      with a "4.hyps" obtain tv s1 where f: "term' (advance s) = Inr (tv, s1)"
        by (auto simp: expression_loop.psimps split: sum.splits)
      from "4.IH"(1) True f have l1: "remaining s1 < remaining (advance s)" by blast
      show ?thesis
      proof (cases "tok s = PLUS")
        case A: True
        with a "4.hyps" f have "expression_loop (result + tv) s1 = Inr (v, s')"
          by (simp add: expression_loop.psimps)
        with "4.IH"(2) [OF True f refl A] have "remaining s' \<le> remaining s1" by blast
        with l1 remaining_advance_le [of s] show ?thesis by linarith
      next
        case B: False
        with a "4.hyps" f True have "expression_loop (result - tv) s1 = Inr (v, s')"
          by (simp add: expression_loop.psimps)
        with "4.IH"(3) [OF True f refl B] have "remaining s' \<le> remaining s1" by blast
        with l1 remaining_advance_le [of s] show ?thesis by linarith
      qed
    qed
  qed
next
  case (5 s)
  show ?case
  proof (intro allI impI)
    fix v s' assume a: "expression s = Inr (v, s')"
    with "5.hyps" obtain r s1 where f: "term' s = Inr (r, s1)"
      and t: "(tok s1 = NUMBER \<and> is_valid_line_number (get_num (tokenizer s1)) s1 \<and> s' = s1)
              \<or> expression_loop r s1 = Inr (v, s')"
      by (auto simp: expression.psimps split: sum.splits if_splits)
    from "5.IH"(1) f have l1: "remaining s1 < remaining s" by blast
    from t show "remaining s' < remaining s"
    proof
      assume "tok s1 = NUMBER \<and> is_valid_line_number (get_num (tokenizer s1)) s1 \<and> s' = s1"
      with l1 show ?thesis by simp
    next
      assume el: "expression_loop r s1 = Inr (v, s')"
      show ?thesis
      proof (cases "tok s1 = NUMBER \<and> is_valid_line_number (get_num (tokenizer s1)) s1")
        case True
        with a "5.hyps" f have "s' = s1" by (simp add: expression.psimps)
        with l1 show ?thesis by simp
      next
        case False
        from "5.IH"(2) [OF f refl False] el have "remaining s' \<le> remaining s1" by blast
        with l1 show ?thesis by linarith
      qed
    qed
  qed
qed

lemma expression_total: "All factor_term_loop_term'_expression_loop_expression_dom"
proof (relation "measure (\<lambda>x. case x of
          Inl (Inl s) \<Rightarrow> 10 * remaining s
        | Inl (Inr (r, s)) \<Rightarrow> 10 * remaining s + 5
        | Inr (Inl s) \<Rightarrow> 10 * remaining s + 6
        | Inr (Inr (Inl (r, s))) \<Rightarrow> 10 * remaining s + 8
        | Inr (Inr (Inr s)) \<Rightarrow> 10 * remaining s + 9)", goal_cases)
  case 1 show ?case by simp
next
  case (2 s) then show ?case using remaining_advance_less [of s] by simp
next
  case (3 r s) then show ?case using remaining_advance_less [of s] by auto
next
  case (4 r s b x y)
  then show ?case
    using remaining_partial(1) [of "advance s"] remaining_advance_le [of s] by auto
next
  case (5 r s b x y c xa ya)
  then have sd: "safe_divide r x y = Inr (xa, ya)" by simp
  from 5 show ?case
    using remaining_partial(1) [of "advance s"] remaining_advance_le [of s]
      remaining_safe_divide [OF sd] by auto
next
  case (6 s) show ?case by simp
next
  case (7 s b x y) then show ?case using remaining_partial(1) [of s] by auto
next
  case (8 r s) then show ?case using remaining_advance_less [of s] by auto
next
  case (9 r s b x y)
  then show ?case
    using remaining_partial(3) [of "advance s"] remaining_advance_le [of s] by auto
next
  case (10 r s b x y)
  then show ?case
    using remaining_partial(3) [of "advance s"] remaining_advance_le [of s] by auto
next
  case (11 s) show ?case by simp
next
  case (12 s b x y) then show ?case using remaining_partial(3) [of s] by auto
qed

termination factor
  by (rule expression_total)

declare factor.simps [simp del] term_loop.simps [simp del] term'.simps [simp del]
  expression_loop.simps [simp del] expression.simps [simp del]


lemma remaining_factor: "factor s = Inr (v, s') \<Longrightarrow> remaining s' < remaining s"
  using remaining_partial(1) [OF expression_total [THEN spec]] by simp

lemma remaining_term_loop: "term_loop r s = Inr (v, s') \<Longrightarrow> remaining s' \<le> remaining s"
  using remaining_partial(2) [OF expression_total [THEN spec]] by simp

lemma remaining_term: "term' s = Inr (v, s') \<Longrightarrow> remaining s' < remaining s"
  using remaining_partial(3) [OF expression_total [THEN spec]] by simp

lemma remaining_expression_loop:
  "expression_loop r s = Inr (v, s') \<Longrightarrow> remaining s' \<le> remaining s"
  using remaining_partial(4) [OF expression_total [THEN spec]] by simp

lemma remaining_expression: "expression s = Inr (v, s') \<Longrightarrow> remaining s' < remaining s"
  using remaining_partial(5) [OF expression_total [THEN spec]] by simp

text \<open>A comparison yields the \<open>int\<close> 1 or 0.\<close>

definition bool_to_int :: "bool \<Rightarrow> cint" where
  "bool_to_int b = (if b then 1 else 0)"

definition relation :: "SUBARUU \<Rightarrow> (cint \<times> SUBARUU) result" where
  "relation s =
     (case expression s of
        Inl e \<Rightarrow> Inl e
      | Inr (left, s1) \<Rightarrow>
          (let token = tok s1 in
           if token = EQUAL \<or> token = LT \<or> token = GT \<or> token = LT_EQ \<or> token = GT_EQ
              \<or> token = NOT_EQUAL then
             (let op = token in
              case expression (advance s1) of
                Inl e \<Rightarrow> Inl e
              | Inr (right, s2) \<Rightarrow>
                  (case op of
                     EQUAL \<Rightarrow> Inr (bool_to_int (left = right), s2)
                   | LT \<Rightarrow> Inr (bool_to_int (sint left < sint right), s2)
                   | GT \<Rightarrow> Inr (bool_to_int (sint left > sint right), s2)
                   | LT_EQ \<Rightarrow> Inr (bool_to_int (sint left \<le> sint right), s2)
                   | GT_EQ \<Rightarrow> Inr (bool_to_int (sint left \<ge> sint right), s2)
                   | NOT_EQUAL \<Rightarrow> Inr (bool_to_int (left \<noteq> right), s2)
                   | _ \<Rightarrow>
                       (case dprintf InvalidComparison E_ERROR s2 of
                          Inl e \<Rightarrow> Inl e
                        | Inr s3 \<Rightarrow> Inr (0, s3))))
           else Inr (bool_to_int (left \<noteq> 0), s1)))"

subsection \<open>Statements\<close>

definition let_statement :: "SUBARUU \<Rightarrow> SUBARUU result" where
  "let_statement s =
     (if tok s \<noteq> LETTER then dprintf ExpectedVariableName E_ERROR s
      else
        (let var_name = tolower (get_token_data (tokenizer s)) in
         case accept EQUAL (advance s) of
           Inl e \<Rightarrow> Inl e
         | Inr s1 \<Rightarrow>
             (case expression s1 of
                Inl e \<Rightarrow> Inl e
              | Inr (val, s2) \<Rightarrow> Inr (s2\<lparr>variables := (variables s2)(var_name \<mapsto> val)\<rparr>))))"

text \<open>
  The loop \<open>while (!finished() && current_token() != EOL) next_token()\<close>, which
  \<open>find_target_line\<close> and the search mode of \<open>run\<close> use to skip the rest of a line.
\<close>

function skip_until_eol :: "SUBARUU \<Rightarrow> SUBARUU" where
  "skip_until_eol s =
     (if \<not> finished (tokenizer s) \<and> tok s \<noteq> EOL then skip_until_eol (advance s) else s)"
  by pat_completeness auto

lemma not_finished_in_range:
  "\<not> finished (tokenizer s) \<Longrightarrow> pos (tokenizer s) < length (program (tokenizer s))"
  by (auto simp: finished_def current_entry_def eof_entry_def split: if_splits)

lemma remaining_advance_not_finished:
  "\<not> finished (tokenizer s) \<Longrightarrow> remaining (advance s) < remaining s"
  using not_finished_in_range [of s]
  by (simp add: remaining_def advance_def next_token_def)

termination skip_until_eol
  by (relation "measure remaining") (auto simp: remaining_advance_not_finished)

declare skip_until_eol.simps [simp del]

lemma skip_until_eol_continue:
  "\<not> finished (tokenizer s) \<Longrightarrow> tok s \<noteq> EOL \<Longrightarrow> skip_until_eol s = skip_until_eol (advance s)"
  by (subst skip_until_eol.simps) simp

lemma skip_until_eol_stop:
  "finished (tokenizer s) \<or> tok s = EOL \<Longrightarrow> skip_until_eol s = s"
  by (subst skip_until_eol.simps) auto

definition skip_line :: "SUBARUU \<Rightarrow> SUBARUU" where
  "skip_line s =
     (let s1 = skip_until_eol s in if tok s1 = EOL then advance s1 else s1)"

lemma remaining_skip_until_eol: "remaining (skip_until_eol s) \<le> remaining s"
proof (induction s rule: skip_until_eol.induct)
  case (1 s)
  show ?case
  proof (cases "\<not> finished (tokenizer s) \<and> tok s \<noteq> EOL")
    case True
    with 1 have "remaining (skip_until_eol (advance s)) \<le> remaining (advance s)" by blast
    moreover from True have "skip_until_eol s = skip_until_eol (advance s)"
      by (simp add: skip_until_eol_continue)
    ultimately show ?thesis using remaining_advance_le [of s] by simp
  next
    case False
    then have "skip_until_eol s = s" by (intro skip_until_eol_stop) blast
    then show ?thesis by simp
  qed
qed

lemma remaining_skip_line:
  assumes "\<not> finished (tokenizer s)"
  shows "remaining (skip_line s) < remaining s"
proof (cases "tok s = EOL")
  case True
  then have "skip_until_eol s = s" by (simp add: skip_until_eol_stop)
  with True show ?thesis by (simp add: skip_line_def remaining_advance_less)
next
  case False
  with assms have e: "skip_until_eol s = skip_until_eol (advance s)"
    by (simp add: skip_until_eol_continue)
  have "remaining (skip_line s) \<le> remaining (skip_until_eol s)"
    by (simp add: skip_line_def Let_def remaining_advance_le)
  also have "\<dots> \<le> remaining (advance s)"
    unfolding e by (rule remaining_skip_until_eol)
  also have "\<dots> < remaining s" using assms by (rule remaining_advance_not_finished)
  finally show ?thesis .
qed

function find_target_line :: "cint \<Rightarrow> SUBARUU \<Rightarrow> bool \<times> SUBARUU" where
  "find_target_line line_number s =
     (if \<not> finished (tokenizer s) then
        (if tok s = NUMBER \<and> get_num (tokenizer s) = line_number then (True, advance s)
         else find_target_line line_number (skip_line s))
      else (False, s))"
  by pat_completeness auto
termination find_target_line
  by (relation "measure (\<lambda>(n, s). remaining s)") (auto simp: remaining_skip_line)

declare find_target_line.simps [simp del]

definition if_statement :: "SUBARUU \<Rightarrow> SUBARUU result" where
  "if_statement s =
     (case accept IF s of
        Inl e \<Rightarrow> Inl e
      | Inr s1 \<Rightarrow>
     (case relation s1 of
        Inl e \<Rightarrow> Inl e
      | Inr (condition, s2) \<Rightarrow>
     (case accept THEN s2 of
        Inl e \<Rightarrow> Inl e
      | Inr s3 \<Rightarrow>
          (if tok s3 \<noteq> NUMBER then dprintf ExpectedLineNumber E_ERROR s3
           else
             (let line_number = get_num (tokenizer s3);
                  s4 = advance s3
              in if condition \<noteq> 0 then
                   (if line_positions s4 line_number = None then
                      dprintf (LineNotFound line_number) E_ERROR s4
                    else
                      (case find_target_line line_number
                              (s4\<lparr>tokenizer := reset (tokenizer s4)\<rparr>) of
                         (found, s5) \<Rightarrow>
                           if \<not> found then dprintf (FailedToFind line_number) E_ERROR s5
                           else Inr s5))
                 else (if tok s4 = EOL then Inr (advance s4) else Inr s4))))))"

definition goto_statement :: "SUBARUU \<Rightarrow> SUBARUU result" where
  "goto_statement s =
     (case accept GOTO s of
        Inl e \<Rightarrow> Inl e
      | Inr s1 \<Rightarrow>
          (let line_number = get_num (tokenizer s1) in
           case accept NUMBER s1 of
             Inl e \<Rightarrow> Inl e
           | Inr s2 \<Rightarrow>
          (case accept EOL s2 of
             Inl e \<Rightarrow> Inl e
           | Inr s3 \<Rightarrow>
               (if line_positions s3 line_number = None then
                  dprintf (LineNotFound line_number) E_ERROR s3
                else
                  (case find_target_line line_number
                          (s3\<lparr>tokenizer := reset (tokenizer s3)\<rparr>) of
                     (found, s4) \<Rightarrow>
                       if \<not> found then dprintf (FailedToFind line_number) E_ERROR s4
                       else Inr s4)))))"


subsection \<open>PRINT\<close>

text \<open>The decimal text that \<open>std::cout << int\<close> writes.\<close>

function string_of_nat :: "nat \<Rightarrow> string" where
  "string_of_nat n =
     (if n < 10 then [char_of (48 + n)]
      else string_of_nat (n div 10) @ [char_of (48 + n mod 10)])"
  by pat_completeness auto
termination string_of_nat
  by (relation "measure id") auto

declare string_of_nat.simps [simp del]

definition to_string :: "cint \<Rightarrow> string" where
  "to_string v =
     (if sint v < 0 then CHR ''-'' # string_of_nat (nat (- sint v))
      else string_of_nat (nat (sint v)))"

definition is_statement_end :: "TokenType \<Rightarrow> bool" where
  "is_statement_end token = (token = EOL \<or> token = EOF_TOKEN)"

definition is_line_number :: "SUBARUU \<Rightarrow> bool" where
  "is_line_number s =
     (if tok s \<noteq> NUMBER then False
      else
        (let n = get_num (tokenizer s) in
         if 10 \<le> sint n \<and> sint n smod 10 = 0 then
           (let next_char = peek_char (tokenizer s)
            in next_char = CHR '' '' \<or> next_char = CHR 0x0A \<or> next_char = CHR 0x0D)
         else False))"

text \<open>
  The item loop of \<open>print_statement\<close> (written \<open>print_statement'\<close> below); its first argument is the local \<open>need_space\<close>.
  Leaving the loop by \<open>break\<close>, by \<open>goto end_print\<close> or by its condition all continue at
  the label \<open>end_print\<close>, so all return the state.
\<close>

function print_loop :: "bool \<Rightarrow> SUBARUU \<Rightarrow> SUBARUU result" where
  "print_loop need_space s =
     (if \<not> finished (tokenizer s) then
        (let token = tok s in
         if is_statement_end token then Inr s
         else if is_line_number s then Inr s
         else
           (case token of
              STRING \<Rightarrow>
                print_loop True
                  (advance (s\<lparr>cout := cout s @ (if need_space then '' '' else [])
                                       @ get_string (tokenizer s)\<rparr>))
            | SEPARATOR \<Rightarrow> print_loop False (advance (s\<lparr>cout := cout s @ '' ''\<rparr>))
            | LETTER \<Rightarrow>
                (case expression (s\<lparr>cout := cout s @ (if need_space then '' '' else [])\<rparr>) of
                   Inl e \<Rightarrow> Inl e
                 | Inr (v, s1) \<Rightarrow> print_loop True (s1\<lparr>cout := cout s1 @ to_string v\<rparr>))
            | NUMBER \<Rightarrow>
                (case expression (s\<lparr>cout := cout s @ (if need_space then '' '' else [])\<rparr>) of
                   Inl e \<Rightarrow> Inl e
                 | Inr (v, s1) \<Rightarrow> print_loop True (s1\<lparr>cout := cout s1 @ to_string v\<rparr>))
            | LEFT_PAREN \<Rightarrow>
                (case expression (s\<lparr>cout := cout s @ (if need_space then '' '' else [])\<rparr>) of
                   Inl e \<Rightarrow> Inl e
                 | Inr (v, s1) \<Rightarrow> print_loop True (s1\<lparr>cout := cout s1 @ to_string v\<rparr>))
            | _ \<Rightarrow> Inr s))
      else Inr s)"
  by pat_completeness auto

lemma remaining_cout_update [simp]: "remaining (s\<lparr>cout := c\<rparr>) = remaining s"
  by (simp add: remaining_def)

lemma advance_cout_update: "advance (s\<lparr>cout := c\<rparr>) = (advance s)\<lparr>cout := c\<rparr>"
  by (simp add: advance_def)

lemma remaining_expression_cout:
  "expression (s\<lparr>cout := c\<rparr>) = Inr (v, s1) \<Longrightarrow> remaining s1 < remaining s"
  using remaining_expression [of "s\<lparr>cout := c\<rparr>" v s1] by simp

termination print_loop
  by (relation "measure (\<lambda>(n, s). remaining s)")
    (auto simp: advance_cout_update remaining_advance_not_finished
          dest: remaining_expression_cout)

declare print_loop.simps [simp del]

definition print_statement' :: "SUBARUU \<Rightarrow> SUBARUU result" where
  "print_statement' s =
     (case accept PRINT s of
        Inl e \<Rightarrow> Inl e
      | Inr s0 \<Rightarrow>
     (case print_loop False s0 of
        Inl e \<Rightarrow> Inl e
      | Inr s1 \<Rightarrow>
          (let s2 = s1\<lparr>cout := cout s1 @ [CHR 0x0A]\<rparr>;
               final_token = tok s2
           in if is_line_number s2 then Inr s2
              else if final_token = EOF_TOKEN then Inr (s2\<lparr>execution_finished := True\<rparr>)
              else if final_token = EOL then Inr (advance s2)
              else Inr s2)))"

subsection \<open>Statements, lines and the line map\<close>

definition statement :: "SUBARUU \<Rightarrow> SUBARUU result" where
  "statement s =
     (case tok s of
        REM \<Rightarrow> Inr (s\<lparr>tokenizer := skip_to_eol (tokenizer s)\<rparr>)
      | PRINT \<Rightarrow> print_statement' s
      | IF \<Rightarrow> if_statement s
      | GOTO \<Rightarrow> goto_statement s
      | LET \<Rightarrow> (case accept LET s of Inl e \<Rightarrow> Inl e | Inr s1 \<Rightarrow> let_statement s1)
      | LETTER \<Rightarrow> let_statement s
      | _ \<Rightarrow> dprintf UnrecognizedStatement E_ERROR s)"

text \<open>The loop of \<open>line_statement\<close> that skips empty lines.\<close>

function skip_empty_lines :: "SUBARUU \<Rightarrow> SUBARUU" where
  "skip_empty_lines s = (if tok s = EOL then skip_empty_lines (advance s) else s)"
  by pat_completeness auto
termination skip_empty_lines
  by (relation "measure remaining") (auto simp: remaining_advance_less)

declare skip_empty_lines.simps [simp del]

definition line_statement :: "SUBARUU \<Rightarrow> SUBARUU result" where
  "line_statement s =
     (let s1 = skip_empty_lines s in
      if tok s1 = EOF_TOKEN then Inr (s1\<lparr>execution_finished := True\<rparr>)
      else
        (let s2 = (if tok s1 = NUMBER then advance s1 else s1)
         in statement s2))"

text \<open>The scan of \<open>build_line_map\<close>.\<close>

function build_loop :: "SUBARUU \<Rightarrow> SUBARUU" where
  "build_loop s =
     (if \<not> finished (tokenizer s) then
        (let token = tok s;
             s1 = (if token = NUMBER then
                     (let val = get_num (tokenizer s) in
                      if is_valid_line_number val s
                      then s\<lparr>line_positions := (line_positions s)(val \<mapsto> True)\<rparr>
                      else s)
                   else s)
         in build_loop (advance s1))
      else s)"
  by pat_completeness auto

lemma remaining_line_positions_update [simp]:
  "remaining (s\<lparr>line_positions := m\<rparr>) = remaining s"
  by (simp add: remaining_def)

lemma advance_line_positions_update:
  "advance (s\<lparr>line_positions := m\<rparr>) = (advance s)\<lparr>line_positions := m\<rparr>"
  by (simp add: advance_def)

termination build_loop
  by (relation "measure remaining")
    (auto simp: remaining_advance_not_finished advance_line_positions_update Let_def)

declare build_loop.simps [simp del]

definition build_line_map :: "SUBARUU \<Rightarrow> SUBARUU" where
  "build_line_map s =
     (let s0 = s\<lparr>line_positions := Map.empty\<rparr>;
          s1 = s0\<lparr>tokenizer := reset (tokenizer s0)\<rparr>;
          s2 = build_loop s1
      in s2\<lparr>tokenizer := reset (tokenizer s2)\<rparr>)"





subsection \<open>The run loop\<close>

text \<open>
  A program can loop forever (\<open>10 GOTO 10\<close>), so the loop of \<open>run\<close> takes fuel: the
  number of iterations it may make. \<open>None\<close> is running out of fuel.
\<close>

fun run_loop :: "nat \<Rightarrow> SUBARUU \<Rightarrow> SUBARUU result option" where
  "run_loop 0 s = None"
| "run_loop (Suc n) s =
     (if \<not> execution_finished s then
        (if finished (tokenizer s) then Some (Inr (s\<lparr>execution_finished := True\<rparr>))
         else if skip_to_line s then
           (let token = tok s in
            if token = NUMBER then
              (let current_line = get_num (tokenizer s) in
               if current_line = target_line s then
                 (case statement (advance (s\<lparr>skip_to_line := False, target_line := - 1\<rparr>)) of
                    Inl e \<Rightarrow> Some (Inl e)
                  | Inr s1 \<Rightarrow> run_loop n s1)
               else run_loop n (skip_line s))
            else run_loop n (skip_line s))
         else
           (case line_statement s of
              Inl e \<Rightarrow> Some (Inl e)
            | Inr s1 \<Rightarrow> run_loop n s1))
      else Some (Inr s))"

definition run :: "nat \<Rightarrow> SUBARUU \<Rightarrow> SUBARUU result option" where
  "run fuel s = run_loop fuel (build_line_map s)"

subsection \<open>What evaluation leaves unchanged\<close>

definition frame :: "SUBARUU \<Rightarrow> SUBARUU \<Rightarrow> bool" where
  "frame s s' \<longleftrightarrow>
     variables s' = variables s \<and> line_positions s' = line_positions s \<and>
     execution_finished s' = execution_finished s \<and> skip_to_line s' = skip_to_line s \<and>
     target_line s' = target_line s \<and> cout s' = cout s \<and>
     program (tokenizer s') = program (tokenizer s)"

lemma frame_refl [simp]: "frame s s"
  by (simp add: frame_def)

lemma frame_trans: "frame a b \<Longrightarrow> frame b c \<Longrightarrow> frame a c"
  by (simp add: frame_def)

lemma frame_advance [simp]: "frame s (advance s)"
  by (simp add: frame_def advance_def next_token_def)

lemma frame_accept: "accept t s = Inr s' \<Longrightarrow> frame s s'"
  by (auto simp: accept_def dprintf_def split: if_splits)

lemma frame_safe_divide: "safe_divide a b s = Inr (r, s') \<Longrightarrow> frame s s'"
  by (auto simp: safe_divide_def dprintf_def frame_def split: if_splits)

lemma frame_expression_family:
  "\<forall>v s'. factor s = Inr (v, s') \<longrightarrow> frame s s'"
  "\<forall>v s'. term_loop r s = Inr (v, s') \<longrightarrow> frame s s'"
  "\<forall>v s'. term' s = Inr (v, s') \<longrightarrow> frame s s'"
  "\<forall>v s'. expression_loop r s = Inr (v, s') \<longrightarrow> frame s s'"
  "\<forall>v s'. expression s = Inr (v, s') \<longrightarrow> frame s s'"
proof (induction s and r s and s and r s and s
    rule: factor_term_loop_term'_expression_loop_expression.induct)
  case (1 s)
  show ?case
  proof (intro allI impI)
    fix v s' assume a: "factor s = Inr (v, s')"
    show "frame s s'"
    proof (cases "tok s = LEFT_PAREN")
      case True
      with a obtain s1 where e: "expression (advance s) = Inr (v, s1)"
        and acc: "accept RIGHT_PAREN s1 = Inr s'"
        by (auto simp: factor.simps [of s] split: sum.splits)
      from "1.IH" True e have "frame (advance s) s1" by blast
      with frame_accept [OF acc] show ?thesis
        by (blast intro: frame_trans frame_advance)
    next
      case False
      with a have "s' = advance s"
        by (auto simp: factor.simps [of s] dprintf_def Let_def split: TokenType.splits)
      then show ?thesis by simp
    qed
  qed
next
  case (2 result s)
  show ?case
  proof (intro allI impI)
    fix v s' assume a: "term_loop result s = Inr (v, s')"
    show "frame s s'"
    proof (cases "tok s = ASTERISK \<or> tok s = SLASH")
      case False
      with a show ?thesis by (simp add: term_loop.simps [of result s])
    next
      case True
      with a obtain fv s1 where f: "factor (advance s) = Inr (fv, s1)"
        by (auto simp: term_loop.simps [of result s] split: sum.splits)
      from "2.IH"(1) True f have l1: "frame (advance s) s1" by blast
      show ?thesis
      proof (cases "tok s = ASTERISK")
        case A: True
        with a f have "term_loop (result * fv) s1 = Inr (v, s')"
          by (simp add: term_loop.simps [of result s])
        with "2.IH"(2) [OF True f refl A] have "frame s1 s'" by blast
        with l1 show ?thesis by (blast intro: frame_trans frame_advance)
      next
        case B: False
        with a f True obtain r2 s2 where sd: "safe_divide result fv s1 = Inr (r2, s2)"
          and t: "term_loop r2 s2 = Inr (v, s')"
          by (auto simp: term_loop.simps [of result s] split: sum.splits)
        from "2.IH"(3) [OF True f refl B sd refl] t have "frame s2 s'" by blast
        with l1 frame_safe_divide [OF sd] show ?thesis
          by (blast intro: frame_trans frame_advance)
      qed
    qed
  qed
next
  case (3 s)
  show ?case
  proof (intro allI impI)
    fix v s' assume a: "term' s = Inr (v, s')"
    then obtain r s1 where f: "factor s = Inr (r, s1)"
      and t: "term_loop r s1 = Inr (v, s')"
      by (auto simp: term'.simps [of s] split: sum.splits)
    from "3.IH"(1) f have "frame s s1" by blast
    moreover from "3.IH"(2) [OF f refl] t have "frame s1 s'" by blast
    ultimately show "frame s s'" by (rule frame_trans)
  qed
next
  case (4 result s)
  show ?case
  proof (intro allI impI)
    fix v s' assume a: "expression_loop result s = Inr (v, s')"
    show "frame s s'"
    proof (cases "tok s = PLUS \<or> tok s = MINUS")
      case False
      with a show ?thesis by (simp add: expression_loop.simps [of result s])
    next
      case True
      with a obtain tv s1 where f: "term' (advance s) = Inr (tv, s1)"
        by (auto simp: expression_loop.simps [of result s] split: sum.splits)
      from "4.IH"(1) True f have l1: "frame (advance s) s1" by blast
      show ?thesis
      proof (cases "tok s = PLUS")
        case A: True
        with a f have "expression_loop (result + tv) s1 = Inr (v, s')"
          by (simp add: expression_loop.simps [of result s])
        with "4.IH"(2) [OF True f refl A] have "frame s1 s'" by blast
        with l1 show ?thesis by (blast intro: frame_trans frame_advance)
      next
        case B: False
        with a f True have "expression_loop (result - tv) s1 = Inr (v, s')"
          by (simp add: expression_loop.simps [of result s])
        with "4.IH"(3) [OF True f refl B] have "frame s1 s'" by blast
        with l1 show ?thesis by (blast intro: frame_trans frame_advance)
      qed
    qed
  qed
next
  case (5 s)
  show ?case
  proof (intro allI impI)
    fix v s' assume a: "expression s = Inr (v, s')"
    then obtain r s1 where f: "term' s = Inr (r, s1)"
      by (auto simp: expression.simps [of s] split: sum.splits)
    from "5.IH"(1) f have l1: "frame s s1" by blast
    show "frame s s'"
    proof (cases "tok s1 = NUMBER \<and> is_valid_line_number (get_num (tokenizer s1)) s1")
      case True
      with a f have "s' = s1" by (simp add: expression.simps [of s])
      with l1 show ?thesis by simp
    next
      case False
      with a f have "expression_loop r s1 = Inr (v, s')"
        by (auto simp: expression.simps [of s])
      with "5.IH"(2) [OF f refl False] have "frame s1 s'" by blast
      with l1 show ?thesis by (rule frame_trans)
    qed
  qed
qed

lemma frame_expression: "expression s = Inr (v, s') \<Longrightarrow> frame s s'"
  using frame_expression_family(5) by blast

lemma frame_factor: "factor s = Inr (v, s') \<Longrightarrow> frame s s'"
  using frame_expression_family(1) by blast

lemma frame_term: "term' s = Inr (v, s') \<Longrightarrow> frame s s'"
  using frame_expression_family(3) by blast

subsection \<open>Example token sources\<close>

text \<open>
  Builders for the tokens of example programs: a token of kind \<open>k\<close> after which
  \<open>peek_char\<close> shows \<open>p\<close>, with the source not finished.
\<close>

definition tk :: "TokenType \<Rightarrow> char \<Rightarrow> token" where
  "tk k p = \<lparr>kind = k, num = 0, letter = CHR 0x00, str = [], peek = p, fin = False\<rparr>"

definition tnum :: "cint \<Rightarrow> char \<Rightarrow> token" where
  "tnum n p = (tk NUMBER p)\<lparr>num := n\<rparr>"

definition tlet :: "char \<Rightarrow> char \<Rightarrow> token" where
  "tlet c p = (tk LETTER p)\<lparr>letter := c\<rparr>"

definition tstr :: "string \<Rightarrow> char \<Rightarrow> token" where
  "tstr x p = (tk STRING p)\<lparr>str := x\<rparr>"

text \<open>The interpreter on the tokens \<open>ts\<close> with the cursor at token \<open>i\<close>.\<close>

definition at_token :: "nat \<Rightarrow> token list \<Rightarrow> SUBARUU" where
  "at_token i ts = (SUBARUU_init ts)\<lparr>tokenizer := \<lparr>program = ts, pos = i\<rparr>\<rparr>"

lemma let_statement_frame_aux:
  assumes "let_statement s = Inr s'"
  shows "\<exists>s2 v. frame s s2 \<and> s' = s2\<lparr>variables := (variables s2)(tolower (get_token_data (tokenizer s)) \<mapsto> v)\<rparr>"
proof -
  from assms have l: "tok s = LETTER"
    by (auto simp: let_statement_def dprintf_def split: if_splits)
  with assms obtain s1 s2 v where a: "accept EQUAL (advance s) = Inr s1"
    and e: "expression s1 = Inr (v, s2)"
    and r: "s' = s2\<lparr>variables := (variables s2)(tolower (get_token_data (tokenizer s)) \<mapsto> v)\<rparr>"
    by (auto simp: let_statement_def Let_def split: sum.splits)
  have "frame s s2"
    using frame_advance [of s] frame_accept [OF a] frame_expression [OF e]
    by (blast intro: frame_trans)
  with r show ?thesis by blast
qed

text \<open>
  C10. An assignment statement that returns has changed no register but the one of the
  lowercase-folded target letter, and has changed neither the line index nor the finished
  flag.
\<close>

theorem let_statement_frame:
  assumes "let_statement s = Inr s'"
  shows "(\<forall>c. c \<noteq> tolower (get_token_data (tokenizer s)) \<longrightarrow> variables s' c = variables s c)
         \<and> line_positions s' = line_positions s
         \<and> execution_finished s' = execution_finished s"
  using let_statement_frame_aux [OF assms] by (auto simp: frame_def)

definition let_example :: SUBARUU where
  "let_example = at_token 0 [tlet CHR ''B'' CHR '' '', tk EQUAL CHR '' '', tnum 5 CHR 0x0A,
                             tk EOL CHR 0x00]"

lemma let_example_returns: "\<not> isl (let_statement let_example)"
  by code_simp

theorem let_statement_frame_witness:
  "let_statement let_example = Inr (projr (let_statement let_example))
   \<and> CHR ''a'' \<noteq> tolower (get_token_data (tokenizer let_example))
   \<and> variables (projr (let_statement let_example)) CHR ''a'' = variables let_example CHR ''a''
   \<and> line_positions (projr (let_statement let_example)) = line_positions let_example
   \<and> execution_finished (projr (let_statement let_example))
       = execution_finished let_example"
proof -
  have h: "let_statement let_example = Inr (projr (let_statement let_example))"
    using let_example_returns by simp
  have n: "CHR ''a'' \<noteq> tolower (get_token_data (tokenizer let_example))"
    by code_simp
  show ?thesis using h n let_statement_frame [OF h] by blast
qed

subsection \<open>Division\<close>

lemma sdiv_int_bounds:
  fixes a b :: int
  assumes "- (2 ^ 31) \<le> a" "a < 2 ^ 31" "b \<noteq> 0" "\<not> (a = - (2 ^ 31) \<and> b = - 1)"
  shows "- (2 ^ 31) \<le> a sdiv b \<and> a sdiv b < 2 ^ 31"
proof -
  define m where "m = \<bar>a\<bar> div \<bar>b\<bar>"
  have m0: "0 \<le> m" unfolding m_def using assms(3) by (simp add: pos_imp_zdiv_nonneg_iff)
  have mle: "m \<le> \<bar>a\<bar>" unfolding m_def
    by (metis abs_ge_zero div_by_1 zdiv_mono2 assms(3) abs_of_nonneg abs_zero
        linorder_not_le zero_less_abs_iff int_one_le_iff_zero_less div_by_0)
  have big: "m \<le> 2 ^ 30" if "2 \<le> \<bar>b\<bar>"
  proof -
    have "\<bar>a\<bar> div \<bar>b\<bar> \<le> \<bar>a\<bar> div 2"
      using that by (intro zdiv_mono2) auto
    also have "\<dots> \<le> 2 ^ 30" using assms(1,2) by simp
    finally show ?thesis by (simp add: m_def)
  qed
  have e: "a sdiv b = sgn a * sgn b * m" by (simp add: signed_divide_int_def m_def)
  consider "0 \<le> a" | "a < 0" "0 < b" | "a < 0" "b < 0" using assms(3) by linarith
  then show ?thesis
  proof cases
    case 1
    with assms(2) mle have "m < 2 ^ 31" by simp
    with m0 show ?thesis unfolding e by (cases "0 < b"; cases "a = 0"; simp add: sgn_if)
  next
    case 2
    with assms(1) mle m0 show ?thesis unfolding e by (simp add: sgn_if)
  next
    case 3
    have "m < 2 ^ 31"
    proof (cases "a = - (2 ^ 31)")
      case True
      with assms(4) 3 have "2 \<le> \<bar>b\<bar>" by simp
      from big [OF this] show ?thesis by simp
    next
      case False
      with assms(1) 3 mle show ?thesis by simp
    qed
    with m0 3 show ?thesis unfolding e by (simp add: sgn_if)
  qed
qed

lemma sint_sdiv_fits:
  fixes n d :: cint
  assumes "d \<noteq> 0" "\<not> (sint n = - (2 ^ 31) \<and> sint d = - 1)"
  shows "sint (word_of_int (sint n sdiv sint d) :: cint) = sint n sdiv sint d"
proof -
  have "sint d \<noteq> 0" using assms(1) by (metis sint_0 signed_word_eqI) 
  with sdiv_int_bounds [of "sint n" "sint d"] assms(2) sint_ge [of n] sint_lt [of n]
  have "- (2 ^ 31) \<le> sint n sdiv sint d \<and> sint n sdiv sint d < 2 ^ 31" by simp
  then show ?thesis
    by (simp add: signed_of_int signed_take_bit_int_eq_self)
qed

lemma term_loop_slash_zero:
  assumes "tok s = SLASH" "factor (advance s) = Inr (0, s1)"
  shows "term_loop n s = term_loop 0 (s1\<lparr>cerr := cerr s1 @ [(E_WARNING, DivideByZero)]\<rparr>)"
  using assms by (simp add: term_loop.simps [of n s] safe_divide_def dprintf_def)

text \<open>
  What \<open>safe_divide\<close> does everywhere else. For a divisor other than 0 and a quotient
  that is an \<open>int\<close> (every pair but \<open>INT_MIN / -1\<close>) it returns the quotient truncated
  towards zero and leaves the state alone. For the divisor 0 it returns 0 and adds exactly
  one warning to the diagnostics; it does not throw, and a \<open>term\<close> that divides by 0 goes on
  with the value 0.
\<close>

lemma safe_divide_elsewhere:
  "(d \<noteq> 0 \<and> (sint n = - (2 ^ 31) \<longrightarrow> sint d \<noteq> - 1) \<longrightarrow>
      (\<exists>q. safe_divide n d s = Inr (q, s) \<and> sint q = sint n sdiv sint d))
   \<and> safe_divide n 0 s = Inr (0, s\<lparr>cerr := cerr s @ [(E_WARNING, DivideByZero)]\<rparr>)
   \<and> (tok s = SLASH \<and> factor (advance s) = Inr (0, s1) \<longrightarrow>
        term_loop n s = term_loop 0 (s1\<lparr>cerr := cerr s1 @ [(E_WARNING, DivideByZero)]\<rparr>))"
proof (intro conjI impI)
  assume a: "d \<noteq> 0 \<and> (sint n = - (2 ^ 31) \<longrightarrow> sint d \<noteq> - 1)"
  then have "sint (word_of_int (sint n sdiv sint d) :: cint) = sint n sdiv sint d"
    by (intro sint_sdiv_fits) auto
  with a show "\<exists>q. safe_divide n d s = Inr (q, s) \<and> sint q = sint n sdiv sint d"
    by (auto simp: safe_divide_def)
next
  show "safe_divide n 0 s = Inr (0, s\<lparr>cerr := cerr s @ [(E_WARNING, DivideByZero)]\<rparr>)"
    by (simp add: safe_divide_def dprintf_def)
next
  assume "tok s = SLASH \<and> factor (advance s) = Inr (0, s1)"
  then show "term_loop n s = term_loop 0 (s1\<lparr>cerr := cerr s1 @ [(E_WARNING, DivideByZero)]\<rparr>)"
    by (simp add: term_loop_slash_zero)
qed

text \<open>The tokens of \<open>7 / 0\<close>, with the cursor on the \<open>/\<close>.\<close>

definition divide_example :: SUBARUU where
  "divide_example = at_token 1 [tnum 7 CHR ''/'', tk SLASH CHR ''0'', tnum 0 CHR 0x0A,
                                tk EOL CHR 0x00]"

lemma divide_example_tok: "tok divide_example = SLASH"
  by code_simp

lemma divide_example_factor:
  "\<not> isl (factor (advance divide_example))
   \<and> fst (projr (factor (advance divide_example))) = 0"
  by code_simp

lemma safe_divide_examples:
  "safe_divide 7 (- 2) divide_example = Inr (- 3, divide_example)
   \<and> safe_divide (- 7) 2 divide_example = Inr (- 3, divide_example)
   \<and> safe_divide 7 0 divide_example
       = Inr (0, divide_example\<lparr>cerr := cerr divide_example @ [(E_WARNING, DivideByZero)]\<rparr>)"
  by (simp add: safe_divide_def dprintf_def signed_divide_int_def)

text \<open>
  The program \<open>10 PRINT (0-2147483647-1)/(0-1)\<close>: no operand overflows, the dividend is
  \<open>INT_MIN\<close> and the divisor is \<open>-1\<close>.
\<close>

definition int_min_tokens :: "token list" where
  "int_min_tokens =
     [tnum 10 CHR '' '', tk PRINT CHR '' '',
      tk LEFT_PAREN CHR ''0'', tnum 0 CHR ''-'', tk MINUS CHR ''2'', tnum 2147483647 CHR ''-'',
      tk MINUS CHR ''1'', tnum 1 CHR '')'', tk RIGHT_PAREN CHR ''/'', tk SLASH CHR ''('',
      tk LEFT_PAREN CHR ''0'', tnum 0 CHR ''-'', tk MINUS CHR ''1'', tnum 1 CHR '')'',
      tk RIGHT_PAREN CHR 0x0A, tk EOL CHR 0x00]"

lemma int_min_run:
  "(case run 2 (SUBARUU_init int_min_tokens) of
      Some (Inl e) \<Rightarrow> e = DivisionOverflow
    | _ \<Rightarrow> False)"
  by code_simp

text \<open>
  C3 fails on the code. The claim is "for all integers n and d": for the dividend
  \<open>INT_MIN\<close> and the divisor \<open>-1\<close>, which is not 0, \<open>safe_divide\<close> yields no quotient at
  all; the run of a program that divides them ends there, with nothing written.
\<close>

theorem safe_divide_int_min:
  "(- 1 :: cint) \<noteq> 0
   \<and> safe_divide (- 2147483648) (- 1) s = Inl DivisionOverflow
   \<and> run 2 (SUBARUU_init int_min_tokens) = Some (Inl DivisionOverflow)"
proof -
  have "safe_divide (- 2147483648) (- 1) s = Inl DivisionOverflow"
    by (simp add: safe_divide_def)
  moreover have "run 2 (SUBARUU_init int_min_tokens) = Some (Inl DivisionOverflow)"
    using int_min_run by (auto split: option.splits sum.splits)
  ultimately show ?thesis by simp
qed

theorem safe_divide_int_min_witness:
  "safe_divide (- 2147483648) (- 1) divide_example = Inl DivisionOverflow"
  using safe_divide_int_min [of divide_example] by simp

subsection \<open>Relations\<close>

text \<open>
  The comparison operators as the specification reads them, on the integers that the
  two \<open>int\<close> values stand for.
\<close>

definition is_comparison :: "TokenType \<Rightarrow> bool" where
  "is_comparison t = (t = EQUAL \<or> t = LT \<or> t = GT \<or> t = LT_EQ \<or> t = GT_EQ \<or> t = NOT_EQUAL)"

definition comparison_holds :: "TokenType \<Rightarrow> int \<Rightarrow> int \<Rightarrow> bool" where
  "comparison_holds t l r =
     (if t = EQUAL then l = r
      else if t = LT then l < r
      else if t = GT then l > r
      else if t = LT_EQ then l \<le> r
      else if t = GT_EQ then l \<ge> r
      else l \<noteq> r)"

lemma sint_eq_iff: "sint (a :: cint) = sint b \<longleftrightarrow> a = b"
  by (auto intro: signed_word_eqI)

lemma sint_eq_0_iff: "sint (a :: cint) = 0 \<longleftrightarrow> a = 0"
  using sint_eq_iff [of a 0] by simp

lemma relation_values: "relation s = Inr (v, s') \<Longrightarrow> v = 0 \<or> v = 1"
  by (auto simp: relation_def Let_def bool_to_int_def dprintf_def
           split: sum.splits if_splits TokenType.splits)

lemma relation_compare:
  assumes "expression s = Inr (l, s1)" "is_comparison (tok s1)"
    "expression (advance s1) = Inr (r, s2)"
  shows "relation s = Inr (if comparison_holds (tok s1) (sint l) (sint r) then 1 else 0, s2)"
  using assms
  by (auto simp: relation_def Let_def bool_to_int_def is_comparison_def comparison_holds_def
      sint_eq_iff)

lemma relation_plain:
  assumes "expression s = Inr (l, s1)" "\<not> is_comparison (tok s1)"
  shows "relation s = Inr (if sint l \<noteq> 0 then 1 else 0, s1)"
  using assms
  by (auto simp: relation_def Let_def bool_to_int_def is_comparison_def sint_eq_0_iff)

text \<open>
  C5. Whenever \<open>relation\<close> returns, it returns 1 or 0. After the first expression, a
  comparison operator and a second expression, it is 1 exactly when the comparison of the
  two values holds; with no comparison operator after the first expression, it is 1
  exactly when that value is not zero.
\<close>

theorem relation_spec:
  "(relation s = Inr (v, s') \<longrightarrow> v = 0 \<or> v = 1)
   \<and> (expression s = Inr (l, s1) \<and> is_comparison (tok s1)
        \<and> expression (advance s1) = Inr (r, s2) \<longrightarrow>
        relation s = Inr (if comparison_holds (tok s1) (sint l) (sint r) then 1 else 0, s2))
   \<and> (expression s = Inr (l, s1) \<and> \<not> is_comparison (tok s1) \<longrightarrow>
        relation s = Inr (if sint l \<noteq> 0 then 1 else 0, s1))"
  using relation_values [of s v s'] relation_compare [of s l s1 r s2] relation_plain [of s l s1]
  by blast

text \<open>The tokens of \<open>1 < 2 THEN\<close> and of \<open>5 THEN\<close>.\<close>

definition relation_example :: SUBARUU where
  "relation_example = at_token 0 [tnum 1 CHR ''<'', tk LT CHR ''2'', tnum 2 CHR '' '',
                                  tk THEN CHR '' '']"

definition relation_example_plain :: SUBARUU where
  "relation_example_plain = at_token 0 [tnum 5 CHR '' '', tk THEN CHR '' '']"

lemma relation_example_run:
  "\<not> isl (expression relation_example)
   \<and> fst (projr (expression relation_example)) = 1
   \<and> tok (snd (projr (expression relation_example))) = LT
   \<and> \<not> isl (expression (advance (snd (projr (expression relation_example)))))
   \<and> fst (projr (expression (advance (snd (projr (expression relation_example)))))) = 2"
  by code_simp

lemma relation_example_plain_run:
  "\<not> isl (expression relation_example_plain)
   \<and> fst (projr (expression relation_example_plain)) = 5
   \<and> tok (snd (projr (expression relation_example_plain))) = THEN"
  by code_simp

theorem relation_spec_witness:
  "expression relation_example = Inr (1, snd (projr (expression relation_example)))
   \<and> is_comparison (tok (snd (projr (expression relation_example))))
   \<and> expression (advance (snd (projr (expression relation_example))))
       = Inr (2, snd (projr (expression (advance (snd (projr (expression relation_example)))))))
   \<and> relation relation_example
       = Inr (1, snd (projr (expression (advance (snd (projr (expression relation_example)))))))
   \<and> expression relation_example_plain
       = Inr (5, snd (projr (expression relation_example_plain)))
   \<and> \<not> is_comparison (tok (snd (projr (expression relation_example_plain))))
   \<and> relation relation_example_plain
       = Inr (1, snd (projr (expression relation_example_plain)))"
proof -
  let ?s1 = "snd (projr (expression relation_example))"
  let ?s2 = "snd (projr (expression (advance ?s1)))"
  let ?p1 = "snd (projr (expression relation_example_plain))"
  have e1: "expression relation_example = Inr (1, ?s1)"
    using relation_example_run by (metis prod.collapse sum.collapse(2))
  have c: "is_comparison (tok ?s1)"
    using relation_example_run by (simp add: is_comparison_def)
  have e2: "expression (advance ?s1) = Inr (2, ?s2)"
    using relation_example_run by (metis prod.collapse sum.collapse(2))
  have p1: "expression relation_example_plain = Inr (5, ?p1)"
    using relation_example_plain_run by (metis prod.collapse sum.collapse(2))
  have pc: "\<not> is_comparison (tok ?p1)"
    using relation_example_plain_run by (simp add: is_comparison_def)
  have r1: "relation relation_example = Inr (1, ?s2)"
    using relation_spec [of relation_example 1 ?s2 1 ?s1 2 ?s2] e1 c e2 relation_example_run
    by (simp add: comparison_holds_def)
  have r2: "relation relation_example_plain = Inr (1, ?p1)"
    using relation_spec [of relation_example_plain 1 ?p1 5 ?p1 0 ?p1] p1 pc
    by simp
  show ?thesis using e1 c e2 r1 p1 pc r2 by simp
qed

subsection \<open>Jumps\<close>

text \<open>\<open>moved s s'\<close>: the state \<open>s'\<close> is \<open>s\<close> with the cursor at the same or a later token.\<close>

definition moved :: "SUBARUU \<Rightarrow> SUBARUU \<Rightarrow> bool" where
  "moved s s' \<longleftrightarrow>
     (\<exists>j. pos (tokenizer s) \<le> j \<and> s' = s\<lparr>tokenizer := (tokenizer s)\<lparr>pos := j\<rparr>\<rparr>)"

lemma moved_refl [simp]: "moved s s"
  by (auto simp: moved_def intro: exI [of _ "pos (tokenizer s)"])

lemma moved_trans:
  assumes "moved a b" "moved b c"
  shows "moved a c"
proof -
  from assms(1) obtain j where
    j: "pos (tokenizer a) \<le> j" "b = a\<lparr>tokenizer := (tokenizer a)\<lparr>pos := j\<rparr>\<rparr>"
    by (auto simp: moved_def)
  from assms(2) obtain k where
    k: "pos (tokenizer b) \<le> k" "c = b\<lparr>tokenizer := (tokenizer b)\<lparr>pos := k\<rparr>\<rparr>"
    by (auto simp: moved_def)
  from j k have "pos (tokenizer a) \<le> k" "c = a\<lparr>tokenizer := (tokenizer a)\<lparr>pos := k\<rparr>\<rparr>"
    by simp_all
  then show ?thesis unfolding moved_def by blast
qed

lemma moved_advance [simp]: "moved s (advance s)"
proof (cases "pos (tokenizer s) < length (program (tokenizer s))")
  case True
  then show ?thesis
    by (auto simp: moved_def advance_def next_token_def intro: exI [of _ "Suc (pos (tokenizer s))"])
next
  case False
  then have "advance s = s" by (simp add: advance_def next_token_def)
  then show ?thesis by simp
qed

lemma moved_frame: "moved s s' \<Longrightarrow> frame s s' \<and> cerr s' = cerr s"
  by (auto simp: moved_def frame_def)

lemma moved_skip_until_eol: "moved s (skip_until_eol s)"
proof (induction s rule: skip_until_eol.induct)
  case (1 s)
  show ?case
  proof (cases "\<not> finished (tokenizer s) \<and> tok s \<noteq> EOL")
    case True
    with 1 have "moved (advance s) (skip_until_eol (advance s))" by blast
    moreover from True have "skip_until_eol s = skip_until_eol (advance s)"
      by (simp add: skip_until_eol_continue)
    ultimately show ?thesis using moved_trans [OF moved_advance [of s]] by simp
  next
    case False
    then have "skip_until_eol s = s" by (intro skip_until_eol_stop) blast
    then show ?thesis by simp
  qed
qed

lemma moved_skip_line: "moved s (skip_line s)"
  using moved_skip_until_eol [of s]
    moved_trans [OF moved_skip_until_eol [of s] moved_advance [of "skip_until_eol s"]]
  by (simp add: skip_line_def Let_def)

lemma moved_program: "moved s s' \<Longrightarrow> program (tokenizer s') = program (tokenizer s)"
  by (auto simp: moved_def)

lemma moved_pos: "moved s s' \<Longrightarrow> pos (tokenizer s) \<le> pos (tokenizer s')"
  by (auto simp: moved_def)

text \<open>
  Where \<open>find_target_line\<close> answers true, the cursor stands right behind a number token
  of the wanted value, at or after the token where the scan began, and nothing else has
  changed; where it answers false, the token source is finished.
\<close>

lemma find_target_line_found:
  "find_target_line n s = (True, s') \<Longrightarrow>
     (\<exists>i. pos (tokenizer s) \<le> i \<and> i < length (program (tokenizer s))
          \<and> kind (program (tokenizer s) ! i) = NUMBER
          \<and> num (program (tokenizer s) ! i) = n
          \<and> s' = s\<lparr>tokenizer := (tokenizer s)\<lparr>pos := Suc i\<rparr>\<rparr>)"
proof (induction n s rule: find_target_line.induct)
  case (1 n s)
  show ?case
  proof (cases "finished (tokenizer s)")
    case True
    with "1.prems" show ?thesis by (simp add: find_target_line.simps [of n s])
  next
    case nf: False
    show ?thesis
    proof (cases "tok s = NUMBER \<and> get_num (tokenizer s) = n")
      case True
      with nf "1.prems" have s': "s' = advance s" by (simp add: find_target_line.simps [of n s])
      from nf have r: "pos (tokenizer s) < length (program (tokenizer s))"
        by (rule not_finished_in_range)
      with True have "kind (program (tokenizer s) ! pos (tokenizer s)) = NUMBER"
        "num (program (tokenizer s) ! pos (tokenizer s)) = n"
        by (auto simp: tok_def current_token_def get_num_def current_entry_def)
      with r s' show ?thesis
        by (intro exI [of _ "pos (tokenizer s)"]) (simp add: advance_def next_token_def)
    next
      case False
      with nf "1.prems" have "find_target_line n (skip_line s) = (True, s')"
        by (simp add: find_target_line.simps [of n s])
      from "1.IH" [OF _ False this] nf obtain i where
        i: "pos (tokenizer (skip_line s)) \<le> i" "i < length (program (tokenizer (skip_line s)))"
          "kind (program (tokenizer (skip_line s)) ! i) = NUMBER"
          "num (program (tokenizer (skip_line s)) ! i) = n"
          "s' = (skip_line s)\<lparr>tokenizer := (tokenizer (skip_line s))\<lparr>pos := Suc i\<rparr>\<rparr>"
        by blast
      from moved_skip_line [of s] obtain j where
        j: "pos (tokenizer s) \<le> j" "skip_line s = s\<lparr>tokenizer := (tokenizer s)\<lparr>pos := j\<rparr>\<rparr>"
        by (auto simp: moved_def)
      from i j show ?thesis
        by (intro exI [of _ i]) auto
    qed
  qed
qed

lemma find_target_line_not_found:
  "find_target_line n s = (False, s') \<Longrightarrow> finished (tokenizer s') \<and> moved s s'"
proof (induction n s rule: find_target_line.induct)
  case (1 n s)
  show ?case
  proof (cases "finished (tokenizer s)")
    case True
    with "1.prems" show ?thesis by (simp add: find_target_line.simps [of n s])
  next
    case nf: False
    show ?thesis
    proof (cases "tok s = NUMBER \<and> get_num (tokenizer s) = n")
      case True
      with nf "1.prems" show ?thesis by (simp add: find_target_line.simps [of n s])
    next
      case False
      with nf "1.prems" have "find_target_line n (skip_line s) = (False, s')"
        by (simp add: find_target_line.simps [of n s])
      from "1.IH" [OF _ False this] nf have "finished (tokenizer s') \<and> moved (skip_line s) s'"
        by blast
      with moved_trans [OF moved_skip_line [of s]] show ?thesis by blast
    qed
  qed
qed

lemma frame_relation:
  assumes "relation s = Inr (c, s')"
  shows "frame s s'"
proof -
  from assms obtain l s1 where e: "expression s = Inr (l, s1)"
    by (auto simp: relation_def split: sum.splits)
  note f1 = frame_expression [OF e]
  show ?thesis
  proof (cases "tok s1 = EQUAL \<or> tok s1 = LT \<or> tok s1 = GT \<or> tok s1 = LT_EQ
                \<or> tok s1 = GT_EQ \<or> tok s1 = NOT_EQUAL")
    case False
    with assms e have "s' = s1" by (auto simp: relation_def Let_def)
    with f1 show ?thesis by simp
  next
    case True
    with assms e obtain r s2 where e2: "expression (advance s1) = Inr (r, s2)"
      by (auto simp: relation_def Let_def split: sum.splits)
    with assms e True have "s' = s2"
      by (auto simp: relation_def Let_def dprintf_def split: TokenType.splits)
    with frame_expression [OF e2] f1 show ?thesis
      by (blast intro: frame_trans frame_advance)
  qed
qed

lemma frame_reset [simp]: "frame s (s\<lparr>tokenizer := reset (tokenizer s)\<rparr>)"
  by (simp add: frame_def reset_def)

text \<open>\<open>rewind s\<close> is \<open>tokenizer_->reset()\<close>.\<close>

definition rewind :: "SUBARUU \<Rightarrow> SUBARUU" where
  "rewind s = s\<lparr>tokenizer := reset (tokenizer s)\<rparr>"

lemma rewind_moved: "moved s s' \<Longrightarrow> rewind s' = rewind s"
  by (auto simp: moved_def rewind_def reset_def)

lemma rewind_advance [simp]: "rewind (advance s) = rewind s"
  by (rule rewind_moved) simp

lemma line_positions_advance [simp]: "line_positions (advance s) = line_positions s"
  by (simp add: advance_def)

lemma accept_Inr_iff: "accept t s = Inr s' \<longleftrightarrow> tok s = t \<and> s' = advance s"
  by (auto simp: accept_def dprintf_def)

lemma accept_ok [simp]: "tok s = t \<Longrightarrow> accept t s = Inr (advance s)"
  by (simp add: accept_def)

lemma goto_statement_unfold:
  assumes "tok s = GOTO" "tok (advance s) = NUMBER" "tok (advance (advance s)) = EOL"
  shows "goto_statement s =
           (let n = get_num (tokenizer (advance s)) in
            if line_positions s n = None then Inl (LineNotFound n)
            else if \<not> fst (find_target_line n (rewind s)) then Inl (FailedToFind n)
            else Inr (snd (find_target_line n (rewind s))))"
proof -
  have "rewind (advance (advance (advance s))) = rewind s" by simp
  then have r: "(advance (advance (advance s)))\<lparr>tokenizer :=
             reset (tokenizer (advance (advance (advance s))))\<rparr> = rewind s"
    by (simp only: rewind_def)
  show ?thesis
    using assms
    by (simp add: goto_statement_def Let_def dprintf_def r split: prod.splits)
qed

lemma goto_statement_absent:
  assumes "line_positions s (get_num (tokenizer (advance s))) = None"
  shows "isl (goto_statement s)"
proof (cases "tok s = GOTO \<and> tok (advance s) = NUMBER \<and> tok (advance (advance s)) = EOL")
  case True
  with assms show ?thesis by (simp add: goto_statement_unfold Let_def)
next
  case False
  then show ?thesis
    by (auto simp: goto_statement_def accept_def dprintf_def Let_def)
qed

lemma if_statement_unfold:
  assumes "accept IF s = Inr s1" "relation s1 = Inr (c, s2)" "accept THEN s2 = Inr s3"
    "tok s3 = NUMBER"
  shows "if_statement s =
           (let n = get_num (tokenizer s3) in
            if c \<noteq> 0 then
              (if line_positions s n = None then Inl (LineNotFound n)
               else if \<not> fst (find_target_line n (rewind s3)) then Inl (FailedToFind n)
               else Inr (snd (find_target_line n (rewind s3))))
            else Inr (if tok (advance s3) = EOL then advance (advance s3) else advance s3))"
proof -
  have "frame s s3"
    using frame_accept [OF assms(1)] frame_relation [OF assms(2)] frame_accept [OF assms(3)]
    by (blast intro: frame_trans)
  then have lp: "line_positions s3 = line_positions s" by (simp add: frame_def)
  have "rewind (advance s3) = rewind s3" by simp
  then have r: "(advance s3)\<lparr>tokenizer := reset (tokenizer (advance s3))\<rparr> = rewind s3"
    by (simp only: rewind_def)
  show ?thesis
    using assms
    by (simp add: if_statement_def Let_def dprintf_def r lp split: prod.splits)
qed

text \<open>
  C2. A \<open>GOTO number EOL\<close>, and an \<open>IF relation THEN number\<close> whose relation is true,
  with a target that is not in the line index end in the runtime error "line number not
  found"; with a target in the index that the scan from the start of the token source
  does not find, they end in the internal error "failed to find", a different message.
  A \<open>goto_statement\<close> whose target is not in the index never returns normally.
\<close>

theorem jump_existence_check:
  "(tok s = GOTO \<and> tok (advance s) = NUMBER \<and> tok (advance (advance s)) = EOL
      \<and> line_positions s (get_num (tokenizer (advance s))) = None \<longrightarrow>
      goto_statement s = Inl (LineNotFound (get_num (tokenizer (advance s)))))
   \<and> (tok s = GOTO \<and> tok (advance s) = NUMBER \<and> tok (advance (advance s)) = EOL
      \<and> line_positions s (get_num (tokenizer (advance s))) \<noteq> None
      \<and> \<not> fst (find_target_line (get_num (tokenizer (advance s))) (rewind s)) \<longrightarrow>
      goto_statement s = Inl (FailedToFind (get_num (tokenizer (advance s)))))
   \<and> (line_positions s (get_num (tokenizer (advance s))) = None \<longrightarrow> isl (goto_statement s))
   \<and> (accept IF s = Inr s1 \<and> relation s1 = Inr (c, s2) \<and> c \<noteq> 0 \<and> accept THEN s2 = Inr s3
      \<and> tok s3 = NUMBER \<and> line_positions s (get_num (tokenizer s3)) = None \<longrightarrow>
      if_statement s = Inl (LineNotFound (get_num (tokenizer s3))))
   \<and> (accept IF s = Inr s1 \<and> relation s1 = Inr (c, s2) \<and> c \<noteq> 0 \<and> accept THEN s2 = Inr s3
      \<and> tok s3 = NUMBER \<and> line_positions s (get_num (tokenizer s3)) \<noteq> None
      \<and> \<not> fst (find_target_line (get_num (tokenizer s3)) (rewind s3)) \<longrightarrow>
      if_statement s = Inl (FailedToFind (get_num (tokenizer s3))))
   \<and> LineNotFound n \<noteq> FailedToFind n"
proof (intro conjI impI)
  show "LineNotFound n \<noteq> FailedToFind n" by simp
qed (simp_all add: goto_statement_unfold if_statement_unfold goto_statement_absent Let_def)


text \<open>
  The interpreter on the tokens \<open>ts\<close> after \<open>build_line_map\<close>, with the cursor at
  token \<open>i\<close>.
\<close>

definition indexed_at :: "nat \<Rightarrow> token list \<Rightarrow> SUBARUU" where
  "indexed_at i ts = (build_line_map (at_token 0 ts))\<lparr>tokenizer := \<lparr>program = ts, pos = i\<rparr>\<rparr>"

text \<open>
  The programs \<open>10 GOTO 45\<close>, \<open>10 GOTO 40\<close>, \<open>10 IF 1 THEN 45\<close> and
  \<open>10 IF 1 THEN 40\<close>, each with the cursor behind its line number. Neither 45 nor 40 is a
  line of its program; 40 is in the line index all the same, as a multiple of 10 before a
  line feed.
\<close>

definition goto_45 :: SUBARUU where
  "goto_45 = indexed_at 1 [tnum 10 CHR '' '', tk GOTO CHR '' '', tnum 45 CHR 0x0A,
                           tk EOL CHR 0x00]"

definition goto_40 :: SUBARUU where
  "goto_40 = indexed_at 1 [tnum 10 CHR '' '', tk GOTO CHR '' '', tnum 40 CHR 0x0A,
                           tk EOL CHR 0x00]"

definition if_45 :: SUBARUU where
  "if_45 = indexed_at 1 [tnum 10 CHR '' '', tk IF CHR '' '', tnum 1 CHR '' '',
                         tk THEN CHR '' '', tnum 45 CHR 0x0A, tk EOL CHR 0x00]"

definition if_40 :: SUBARUU where
  "if_40 = indexed_at 1 [tnum 10 CHR '' '', tk IF CHR '' '', tnum 1 CHR '' '',
                         tk THEN CHR '' '', tnum 40 CHR 0x0A, tk EOL CHR 0x00]"

lemma goto_45_facts:
  "tok goto_45 = GOTO \<and> tok (advance goto_45) = NUMBER
   \<and> tok (advance (advance goto_45)) = EOL
   \<and> get_num (tokenizer (advance goto_45)) = 45
   \<and> line_positions goto_45 45 = None"
  by code_simp

lemma goto_40_facts:
  "tok goto_40 = GOTO \<and> tok (advance goto_40) = NUMBER
   \<and> tok (advance (advance goto_40)) = EOL
   \<and> get_num (tokenizer (advance goto_40)) = 40
   \<and> line_positions goto_40 40 = Some True
   \<and> \<not> fst (find_target_line 40 (rewind goto_40))"
  by code_simp

lemma if_45_facts:
  "tok if_45 = IF
   \<and> \<not> isl (relation (advance if_45))
   \<and> fst (projr (relation (advance if_45))) = 1
   \<and> tok (snd (projr (relation (advance if_45)))) = THEN
   \<and> tok (advance (snd (projr (relation (advance if_45))))) = NUMBER
   \<and> get_num (tokenizer (advance (snd (projr (relation (advance if_45)))))) = 45
   \<and> line_positions if_45 45 = None"
  by code_simp

lemma if_40_facts:
  "tok if_40 = IF
   \<and> \<not> isl (relation (advance if_40))
   \<and> fst (projr (relation (advance if_40))) = 1
   \<and> tok (snd (projr (relation (advance if_40)))) = THEN
   \<and> tok (advance (snd (projr (relation (advance if_40))))) = NUMBER
   \<and> get_num (tokenizer (advance (snd (projr (relation (advance if_40)))))) = 40
   \<and> line_positions if_40 40 = Some True
   \<and> \<not> fst (find_target_line 40 (rewind (advance (snd (projr (relation (advance if_40)))))))"
  by code_simp

theorem jump_existence_check_witness:
  "line_positions goto_45 (get_num (tokenizer (advance goto_45))) = None
   \<and> goto_statement goto_45 = Inl (LineNotFound 45)
   \<and> isl (goto_statement goto_45)
   \<and> line_positions goto_40 (get_num (tokenizer (advance goto_40))) \<noteq> None
   \<and> goto_statement goto_40 = Inl (FailedToFind 40)
   \<and> relation (advance if_45) = Inr (1, snd (projr (relation (advance if_45))))
   \<and> if_statement if_45 = Inl (LineNotFound 45)
   \<and> relation (advance if_40) = Inr (1, snd (projr (relation (advance if_40))))
   \<and> if_statement if_40 = Inl (FailedToFind 40)"
proof -
  let ?a = "snd (projr (relation (advance if_45)))"
  let ?b = "snd (projr (relation (advance if_40)))"
  have ra: "relation (advance if_45) = Inr (1, ?a)"
    using if_45_facts by (metis prod.collapse sum.collapse(2))
  have rb: "relation (advance if_40) = Inr (1, ?b)"
    using if_40_facts by (metis prod.collapse sum.collapse(2))
  have g1: "goto_statement goto_45 = Inl (LineNotFound 45) \<and> isl (goto_statement goto_45)"
    using jump_existence_check [of goto_45] goto_45_facts by simp
  have g2: "goto_statement goto_40 = Inl (FailedToFind 40)"
    using jump_existence_check [of goto_40] goto_40_facts by simp
  have i1: "if_statement if_45 = Inl (LineNotFound 45)"
    using jump_existence_check [of if_45 "advance if_45" 1 ?a "advance ?a"] if_45_facts ra
    by simp
  have i2: "if_statement if_40 = Inl (FailedToFind 40)"
    using jump_existence_check [of if_40 "advance if_40" 1 ?b "advance ?b"] if_40_facts rb
    by simp
  show ?thesis using g1 g2 i1 i2 ra rb goto_45_facts goto_40_facts by simp
qed

lemma tok_NUMBER_advance:
  "tok s = NUMBER \<Longrightarrow> pos (tokenizer (advance s)) = Suc (pos (tokenizer s))"
  using tok_not_EOF_in_range [of s] by (simp add: advance_def next_token_def)

lemma scan_found_position:
  assumes "fst (find_target_line n (rewind s))"
  shows "\<exists>i<length (program (tokenizer s)).
           kind (program (tokenizer s) ! i) = NUMBER \<and> num (program (tokenizer s) ! i) = n
           \<and> snd (find_target_line n (rewind s)) = s\<lparr>tokenizer := (tokenizer s)\<lparr>pos := Suc i\<rparr>\<rparr>"
proof -
  from assms have "find_target_line n (rewind s) = (True, snd (find_target_line n (rewind s)))"
    by (metis prod.collapse)
  from find_target_line_found [OF this] show ?thesis
    by (auto simp: rewind_def reset_def)
qed

text \<open>
  The jump operation as the specification describes it, on the tokens from the start of
  the program: for each line, if its first token is a number token of the target's value,
  that is the place (the result is the index of that token); otherwise skip to the
  end-of-line token of the line and go on with the next line. The scan ends without a
  place where the token source is finished. \<open>scan_head\<close> stands at the first token of a
  line, \<open>scan_rest\<close> inside a line.
\<close>

fun scan_head :: "cint \<Rightarrow> token list \<Rightarrow> nat option"
  and scan_rest :: "cint \<Rightarrow> token list \<Rightarrow> nat option"
where
  "scan_head n [] = None"
| "scan_head n (e # ts) =
     (if fin e then None
      else if kind e = NUMBER \<and> num e = n then Some 0
      else if kind e = EOL then map_option Suc (scan_head n ts)
      else map_option Suc (scan_rest n ts))"
| "scan_rest n [] = None"
| "scan_rest n (e # ts) =
     (if kind e = EOL then map_option Suc (scan_head n ts)
      else if fin e then None
      else map_option Suc (scan_rest n ts))"

text \<open>The same scans from token \<open>k\<close> of the tokens \<open>P\<close>, with the place as an index of \<open>P\<close>.\<close>

definition scan_head_at :: "cint \<Rightarrow> token list \<Rightarrow> nat \<Rightarrow> nat option" where
  "scan_head_at n P k = map_option (\<lambda>i. k + i) (scan_head n (drop k P))"

definition scan_rest_at :: "cint \<Rightarrow> token list \<Rightarrow> nat \<Rightarrow> nat option" where
  "scan_rest_at n P k = map_option (\<lambda>i. k + i) (scan_rest n (drop k P))"

lemma scan_head_at_end: "length P \<le> k \<Longrightarrow> scan_head_at n P k = None"
  by (simp add: scan_head_at_def)

lemma scan_rest_at_end: "length P \<le> k \<Longrightarrow> scan_rest_at n P k = None"
  by (simp add: scan_rest_at_def)

lemma scan_head_at_step:
  assumes "k < length P"
  shows "scan_head_at n P k =
           (if fin (P ! k) then None
            else if kind (P ! k) = NUMBER \<and> num (P ! k) = n then Some k
            else if kind (P ! k) = EOL then scan_head_at n P (Suc k)
            else scan_rest_at n P (Suc k))"
proof -
  from assms have d: "drop k P = P ! k # drop (Suc k) P" by (simp add: Cons_nth_drop_Suc)
  show ?thesis
    by (simp add: scan_head_at_def scan_rest_at_def d option.map_comp comp_def)
qed

lemma scan_rest_at_step:
  assumes "k < length P"
  shows "scan_rest_at n P k =
           (if kind (P ! k) = EOL then scan_head_at n P (Suc k)
            else if fin (P ! k) then None
            else scan_rest_at n P (Suc k))"
proof -
  from assms have d: "drop k P = P ! k # drop (Suc k) P" by (simp add: Cons_nth_drop_Suc)
  show ?thesis
    by (simp add: scan_head_at_def scan_rest_at_def d option.map_comp comp_def)
qed

lemma state_at_cursor:
  assumes "pos (tokenizer s) < length (program (tokenizer s))"
  shows "tok s = kind (program (tokenizer s) ! pos (tokenizer s))"
    "get_num (tokenizer s) = num (program (tokenizer s) ! pos (tokenizer s))"
    "finished (tokenizer s) = fin (program (tokenizer s) ! pos (tokenizer s))"
    "pos (tokenizer (advance s)) = Suc (pos (tokenizer s))"
    "program (tokenizer (advance s)) = program (tokenizer s)"
  using assms
  by (simp_all add: tok_def current_token_def get_num_def finished_def current_entry_def
      advance_def next_token_def)

lemma state_past_end:
  assumes "length (program (tokenizer s)) \<le> pos (tokenizer s)"
  shows "finished (tokenizer s)" "tok s = EOF_TOKEN"
  using assms
  by (simp_all add: tok_def current_token_def finished_def current_entry_def eof_entry_def)

lemma program_skip_line [simp]: "program (tokenizer (skip_line s)) = program (tokenizer s)"
  using moved_program [OF moved_skip_line [of s]] .

lemma skip_line_continue:
  assumes "\<not> finished (tokenizer s)" "tok s \<noteq> EOL"
  shows "skip_line s = skip_line (advance s)"
  using assms by (simp add: skip_line_def skip_until_eol_continue)

lemma skip_line_stop:
  assumes "finished (tokenizer s) \<or> tok s = EOL"
  shows "skip_line s = (if tok s = EOL then advance s else s)"
  using assms by (simp add: skip_line_def skip_until_eol_stop)

text \<open>Skipping the rest of a line, as the code does it, is \<open>scan_rest\<close>.\<close>

lemma scan_rest_skip_line:
  "scan_rest_at n (program (tokenizer s)) (pos (tokenizer s))
     = scan_head_at n (program (tokenizer s)) (pos (tokenizer (skip_line s)))"
proof (induction s rule: skip_until_eol.induct)
  case (1 s)
  let ?P = "program (tokenizer s)" and ?k = "pos (tokenizer s)"
  show ?case
  proof (cases "?k < length ?P")
    case False
    then have e: "length ?P \<le> ?k" by simp
    from state_past_end [OF e] have "skip_line s = s" by (simp add: skip_line_stop)
    with e show ?thesis by (simp add: scan_rest_at_end scan_head_at_end)
  next
    case r: True
    note c = state_at_cursor [OF r]
    show ?thesis
    proof (cases "tok s = EOL")
      case True
      then have "skip_line s = advance s" by (simp add: skip_line_stop)
      with True r c show ?thesis by (simp add: scan_rest_at_step)
    next
      case ne: False
      show ?thesis
      proof (cases "finished (tokenizer s)")
        case True
        with ne have sl: "skip_line s = s" by (simp add: skip_line_stop)
        from True ne r c have "scan_rest_at n ?P ?k = None" by (simp add: scan_rest_at_step)
        moreover from True r c have "scan_head_at n ?P ?k = None"
          by (simp add: scan_head_at_step)
        ultimately show ?thesis by (simp add: sl)
      next
        case nf: False
        from nf ne have sl: "skip_line s = skip_line (advance s)" by (rule skip_line_continue)
        from nf ne "1.IH"
        have "scan_rest_at n (program (tokenizer (advance s))) (pos (tokenizer (advance s)))
                = scan_head_at n (program (tokenizer (advance s)))
                    (pos (tokenizer (skip_line (advance s))))"
          by simp
        with nf ne r c show ?thesis by (simp add: scan_rest_at_step sl)
      qed
    qed
  qed
qed

text \<open>\<open>find_target_line\<close> finds the place of the scan, and finds nothing where it has none.\<close>

lemma find_target_line_scan:
  "(scan_head_at n (program (tokenizer s)) (pos (tokenizer s)) = None
      \<longrightarrow> \<not> fst (find_target_line n s))
   \<and> (\<forall>i. scan_head_at n (program (tokenizer s)) (pos (tokenizer s)) = Some i
      \<longrightarrow> find_target_line n s = (True, s\<lparr>tokenizer := (tokenizer s)\<lparr>pos := Suc i\<rparr>\<rparr>))"
proof (induction n s rule: find_target_line.induct)
  case (1 n s)
  let ?P = "program (tokenizer s)" and ?k = "pos (tokenizer s)"
  show ?case
  proof (cases "finished (tokenizer s)")
    case True
    then have f: "find_target_line n s = (False, s)" by (simp add: find_target_line.simps [of n s])
    have "scan_head_at n ?P ?k = None"
    proof (cases "?k < length ?P")
      case r: True
      with True state_at_cursor(3) [OF r] show ?thesis by (simp add: scan_head_at_step)
    next
      case False
      then show ?thesis by (simp add: scan_head_at_end)
    qed
    with f show ?thesis by simp
  next
    case nf: False
    then have r: "?k < length ?P" by (rule not_finished_in_range)
    note c = state_at_cursor [OF r]
    show ?thesis
    proof (cases "tok s = NUMBER \<and> get_num (tokenizer s) = n")
      case True
      with nf have "find_target_line n s = (True, advance s)"
        by (simp add: find_target_line.simps [of n s])
      moreover from True nf r c have "scan_head_at n ?P ?k = Some ?k"
        by (simp add: scan_head_at_step)
      moreover from r have "advance s = s\<lparr>tokenizer := (tokenizer s)\<lparr>pos := Suc ?k\<rparr>\<rparr>"
        by (simp add: advance_def next_token_def)
      ultimately show ?thesis by simp
    next
      case False
      with nf have f: "find_target_line n s = find_target_line n (skip_line s)"
        by (auto simp: find_target_line.simps [of n s])
      have h: "scan_head_at n ?P ?k = scan_head_at n ?P (pos (tokenizer (skip_line s)))"
      proof (cases "tok s = EOL")
        case True
        then have "skip_line s = advance s" by (simp add: skip_line_stop)
        with True False nf r c show ?thesis by (auto simp: scan_head_at_step)
      next
        case ne: False
        with nf have sl: "skip_line s = skip_line (advance s)" by (rule skip_line_continue)
        from ne False nf r c
        have "scan_head_at n ?P ?k = scan_rest_at n ?P (Suc ?k)" by (auto simp: scan_head_at_step)
        also have "\<dots> = scan_head_at n ?P (pos (tokenizer (skip_line (advance s))))"
          using scan_rest_skip_line [of n "advance s"] c by simp
        finally show ?thesis by (simp add: sl)
      qed
      from moved_skip_line [of s] obtain j where
        j: "skip_line s = s\<lparr>tokenizer := (tokenizer s)\<lparr>pos := j\<rparr>\<rparr>"
        by (auto simp: moved_def)
      from "1.IH" [OF nf False]
      have ih: "scan_head_at n ?P (pos (tokenizer (skip_line s))) = None
                  \<longrightarrow> \<not> fst (find_target_line n (skip_line s))"
        "\<And>i. scan_head_at n ?P (pos (tokenizer (skip_line s))) = Some i
                  \<Longrightarrow> find_target_line n (skip_line s)
                        = (True, (skip_line s)\<lparr>tokenizer := (tokenizer (skip_line s))\<lparr>pos := Suc i\<rparr>\<rparr>)"
        by simp_all
      have upd: "(skip_line s)\<lparr>tokenizer := (tokenizer (skip_line s))\<lparr>pos := Suc i\<rparr>\<rparr>
                   = s\<lparr>tokenizer := (tokenizer s)\<lparr>pos := Suc i\<rparr>\<rparr>" for i
        by (subst (1 2) j) simp
      show ?thesis
        unfolding f h using ih by (simp add: upd)
    qed
  qed
qed

lemma scan_place:
  "(scan_head n P = Some i \<longrightarrow> i < length P \<and> kind (P ! i) = NUMBER \<and> num (P ! i) = n)
   \<and> (scan_rest n P = Some i \<longrightarrow> i < length P \<and> kind (P ! i) = NUMBER \<and> num (P ! i) = n)"
proof (induction P arbitrary: i)
  case Nil
  show ?case by simp
next
  case (Cons e ts)
  have ih: "j < length ts \<and> kind (ts ! j) = NUMBER \<and> num (ts ! j) = n"
    if "scan_head n ts = Some j \<or> scan_rest n ts = Some j" for j
    using that Cons.IH [of j] by blast
  have tail: "i < length (e # ts) \<and> kind ((e # ts) ! i) = NUMBER \<and> num ((e # ts) ! i) = n"
    if "map_option Suc (scan_head n ts) = Some i \<or> map_option Suc (scan_rest n ts) = Some i"
  proof -
    from that obtain j where "i = Suc j" "scan_head n ts = Some j \<or> scan_rest n ts = Some j"
      by auto
    with ih [of j] show ?thesis by simp
  qed
  show ?case
  proof (rule conjI; rule impI)
    assume a: "scan_head n (e # ts) = Some i"
    show "i < length (e # ts) \<and> kind ((e # ts) ! i) = NUMBER \<and> num ((e # ts) ! i) = n"
    proof (cases "kind e = NUMBER \<and> num e = n")
      case True
      with a have "i = 0" by (simp split: if_splits)
      with True show ?thesis by simp
    next
      case False
      with a have "map_option Suc (scan_head n ts) = Some i
                   \<or> map_option Suc (scan_rest n ts) = Some i"
        by (simp split: if_splits)
      then show ?thesis by (rule tail)
    qed
  next
    assume a: "scan_rest n (e # ts) = Some i"
    then have "map_option Suc (scan_head n ts) = Some i
               \<or> map_option Suc (scan_rest n ts) = Some i"
      by (simp split: if_splits)
    then show "i < length (e # ts) \<and> kind ((e # ts) ! i) = NUMBER \<and> num ((e # ts) ! i) = n"
      by (rule tail)
  qed
qed

lemma scan_from_start:
  "(scan_head n (program (tokenizer s)) = None \<longrightarrow> \<not> fst (find_target_line n (rewind s)))
   \<and> (\<forall>i. scan_head n (program (tokenizer s)) = Some i
      \<longrightarrow> find_target_line n (rewind s) = (True, s\<lparr>tokenizer := (tokenizer s)\<lparr>pos := Suc i\<rparr>\<rparr>))"
  using find_target_line_scan [of n "rewind s"]
  by (simp add: rewind_def reset_def scan_head_at_def option.map_ident)


text \<open>
  C4. In \<open>IF relation THEN number\<close> the number token is consumed before the condition is
  looked at. With a false relation the statement returns with the cursor behind the number,
  and behind the end-of-line token if one follows it; nothing else changes. With a true
  relation the statement jumps to the line of that number: a target that is not in the
  line index is an error; otherwise the scan of the lines from the start of the program
  gives the place, the number token of the target's value that heads a line, and the
  statement returns with the cursor right behind it and nothing else changed; where the
  scan has no place, that is the other error.
\<close>

theorem if_statement_spec:
  assumes "accept IF s = Inr s1" "relation s1 = Inr (c, s2)" "accept THEN s2 = Inr s3"
    "tok s3 = NUMBER"
  shows "pos (tokenizer (advance s3)) = Suc (pos (tokenizer s3))
         \<and> (c = 0 \<longrightarrow>
              if_statement s
                = Inr (if tok (advance s3) = EOL then advance (advance s3) else advance s3))
         \<and> (c \<noteq> 0 \<longrightarrow>
              if_statement s
                = (if line_positions s (get_num (tokenizer s3)) = None
                   then Inl (LineNotFound (get_num (tokenizer s3)))
                   else
                     (case scan_head (get_num (tokenizer s3)) (program (tokenizer s3)) of
                        None \<Rightarrow> Inl (FailedToFind (get_num (tokenizer s3)))
                      | Some i \<Rightarrow> Inr (s3\<lparr>tokenizer := (tokenizer s3)\<lparr>pos := Suc i\<rparr>\<rparr>))))
         \<and> (\<forall>i. scan_head (get_num (tokenizer s3)) (program (tokenizer s3)) = Some i \<longrightarrow>
                i < length (program (tokenizer s3))
                \<and> kind (program (tokenizer s3) ! i) = NUMBER
                \<and> num (program (tokenizer s3) ! i) = get_num (tokenizer s3))"
proof (intro conjI impI allI)
  show "pos (tokenizer (advance s3)) = Suc (pos (tokenizer s3))"
    using assms(4) by (rule tok_NUMBER_advance)
next
  assume "c = 0"
  then show "if_statement s
               = Inr (if tok (advance s3) = EOL then advance (advance s3) else advance s3)"
    using if_statement_unfold [OF assms] by (simp add: Let_def)
next
  assume c: "c \<noteq> 0"
  let ?n = "get_num (tokenizer s3)"
  show "if_statement s
          = (if line_positions s ?n = None then Inl (LineNotFound ?n)
             else
               (case scan_head ?n (program (tokenizer s3)) of
                  None \<Rightarrow> Inl (FailedToFind ?n)
                | Some i \<Rightarrow> Inr (s3\<lparr>tokenizer := (tokenizer s3)\<lparr>pos := Suc i\<rparr>\<rparr>)))"
  proof (cases "scan_head ?n (program (tokenizer s3))")
    case None
    with scan_from_start [of ?n s3] have "\<not> fst (find_target_line ?n (rewind s3))" by simp
    with c None show ?thesis using if_statement_unfold [OF assms] by (simp add: Let_def)
  next
    case (Some i)
    with scan_from_start [of ?n s3]
    have "find_target_line ?n (rewind s3) = (True, s3\<lparr>tokenizer := (tokenizer s3)\<lparr>pos := Suc i\<rparr>\<rparr>)"
      by simp
    with c Some show ?thesis using if_statement_unfold [OF assms] by (simp add: Let_def)
  qed
next
  fix i assume "scan_head (get_num (tokenizer s3)) (program (tokenizer s3)) = Some i"
  with scan_place [of "get_num (tokenizer s3)" "program (tokenizer s3)" i]
  show "i < length (program (tokenizer s3))"
    "kind (program (tokenizer s3) ! i) = NUMBER"
    "num (program (tokenizer s3) ! i) = get_num (tokenizer s3)"
    by simp_all
qed

text \<open>
  The programs \<open>10 IF 0 THEN 30 / 20 REM / 30 REM\<close> and \<open>10 IF 1 THEN 30 / 20 REM /
  30 REM\<close>, with the cursor behind the first line number: the first goes on at line 20
  (token 6), the second behind the line number 30 (token 10).
\<close>

definition if_false :: SUBARUU where
  "if_false = indexed_at 1 [tnum 10 CHR '' '', tk IF CHR '' '', tnum 0 CHR '' '',
                            tk THEN CHR '' '', tnum 30 CHR 0x0A, tk EOL CHR ''2'',
                            tnum 20 CHR '' '', tk REM CHR 0x0A, tk EOL CHR ''3'',
                            tnum 30 CHR '' '', tk REM CHR 0x0A, tk EOL CHR 0x00]"

definition if_true :: SUBARUU where
  "if_true = indexed_at 1 [tnum 10 CHR '' '', tk IF CHR '' '', tnum 1 CHR '' '',
                           tk THEN CHR '' '', tnum 30 CHR 0x0A, tk EOL CHR ''2'',
                           tnum 20 CHR '' '', tk REM CHR 0x0A, tk EOL CHR ''3'',
                           tnum 30 CHR '' '', tk REM CHR 0x0A, tk EOL CHR 0x00]"

lemma if_false_facts:
  "tok if_false = IF
   \<and> \<not> isl (relation (advance if_false))
   \<and> fst (projr (relation (advance if_false))) = 0
   \<and> tok (snd (projr (relation (advance if_false)))) = THEN
   \<and> tok (advance (snd (projr (relation (advance if_false))))) = NUMBER
   \<and> tok (advance (advance (snd (projr (relation (advance if_false)))))) = EOL
   \<and> pos (tokenizer (advance (advance (advance (snd (projr (relation (advance if_false)))))))) = 6"
  by code_simp

lemma if_true_facts:
  "tok if_true = IF
   \<and> \<not> isl (relation (advance if_true))
   \<and> fst (projr (relation (advance if_true))) = 1
   \<and> tok (snd (projr (relation (advance if_true)))) = THEN
   \<and> tok (advance (snd (projr (relation (advance if_true))))) = NUMBER
   \<and> get_num (tokenizer (advance (snd (projr (relation (advance if_true)))))) = 30
   \<and> line_positions if_true 30 = Some True
   \<and> scan_head 30 (program (tokenizer (advance (snd (projr (relation (advance if_true)))))))
       = Some 9"
  by code_simp

theorem if_statement_spec_witness:
  "accept IF if_false = Inr (advance if_false)
   \<and> relation (advance if_false) = Inr (0, snd (projr (relation (advance if_false))))
   \<and> accept THEN (snd (projr (relation (advance if_false))))
       = Inr (advance (snd (projr (relation (advance if_false)))))
   \<and> tok (advance (snd (projr (relation (advance if_false))))) = NUMBER
   \<and> if_statement if_false
       = Inr (advance (advance (advance (snd (projr (relation (advance if_false)))))))
   \<and> pos (tokenizer (advance (advance (advance (snd (projr (relation (advance if_false)))))))) = 6
   \<and> accept IF if_true = Inr (advance if_true)
   \<and> relation (advance if_true) = Inr (1, snd (projr (relation (advance if_true))))
   \<and> (1 :: cint) \<noteq> 0
   \<and> accept THEN (snd (projr (relation (advance if_true))))
       = Inr (advance (snd (projr (relation (advance if_true)))))
   \<and> tok (advance (snd (projr (relation (advance if_true))))) = NUMBER
   \<and> if_statement if_true
       = Inr ((advance (snd (projr (relation (advance if_true)))))
                \<lparr>tokenizer := (tokenizer (advance (snd (projr (relation (advance if_true))))))
                                 \<lparr>pos := 10\<rparr>\<rparr>)"
proof -
  let ?a = "snd (projr (relation (advance if_false)))"
  let ?b = "snd (projr (relation (advance if_true)))"
  have a1: "accept IF if_false = Inr (advance if_false)" using if_false_facts by simp
  have a2: "relation (advance if_false) = Inr (0, ?a)"
    using if_false_facts by (metis prod.collapse sum.collapse(2))
  have a3: "accept THEN ?a = Inr (advance ?a)" using if_false_facts by simp
  have a4: "tok (advance ?a) = NUMBER" using if_false_facts by simp
  have b1: "accept IF if_true = Inr (advance if_true)" using if_true_facts by simp
  have b2: "relation (advance if_true) = Inr (1, ?b)"
    using if_true_facts by (metis prod.collapse sum.collapse(2))
  have b3: "accept THEN ?b = Inr (advance ?b)" using if_true_facts by simp
  have b4: "tok (advance ?b) = NUMBER" using if_true_facts by simp
  have f: "if_statement if_false = Inr (advance (advance (advance ?a)))"
    using if_statement_spec [OF a1 a2 a3 a4] if_false_facts by simp
  have p6: "pos (tokenizer (advance (advance (advance ?a)))) = 6"
    using if_false_facts by simp
  have t: "if_statement if_true
             = Inr ((advance ?b)\<lparr>tokenizer := (tokenizer (advance ?b))\<lparr>pos := 10\<rparr>\<rparr>)"
    using if_statement_spec [OF b1 b2 b3 b4] if_true_facts by simp
  show ?thesis
    by (intro conjI a1 a2 a3 a4 f p6 b1 b2 b3 b4 t) simp
qed

subsection \<open>The line-number heuristic, the end of an expression and the line index\<close>

lemma expression_loop_consumes:
  assumes "tok s = PLUS \<or> tok s = MINUS" "expression_loop r s = Inr (v, s')"
  shows "remaining s' < remaining s"
proof -
  from assms obtain tv s1 where t: "term' (advance s) = Inr (tv, s1)"
    by (auto simp: expression_loop.simps [of r s] split: sum.splits)
  with assms have "expression_loop (r + tv) s1 = Inr (v, s') \<or>
                   expression_loop (r - tv) s1 = Inr (v, s')"
    by (auto simp: expression_loop.simps [of r s] split: if_splits)
  then have "remaining s' \<le> remaining s1" by (auto dest: remaining_expression_loop)
  with remaining_term [OF t] remaining_advance_le [of s] show ?thesis by linarith
qed

lemma expression_stops:
  assumes "term' s = Inr (v, s1)" "tok s1 \<noteq> PLUS" "tok s1 \<noteq> MINUS"
  shows "expression s = Inr (v, s1)"
  using assms by (simp add: expression.simps [of s] expression_loop.simps [of v s1])

lemma expression_goes_on:
  assumes "term' s = Inr (v, s1)" "tok s1 = PLUS \<or> tok s1 = MINUS"
  shows "expression s \<noteq> Inr (w, s1)"
proof
  assume e: "expression s = Inr (w, s1)"
  from assms have "expression s = expression_loop v s1"
    by (auto simp: expression.simps [of s])
  with e have "expression_loop v s1 = Inr (w, s1)" by simp
  from expression_loop_consumes [OF assms(2) this] show False by simp
qed

lemma smod_10_dvd: "(k :: int) smod 10 = 0 \<longleftrightarrow> 10 dvd k"
proof -
  have "k smod 10 = sgn k * (\<bar>k\<bar> mod 10)" by (simp add: signed_modulo_int_def)
  moreover have "sgn k * (\<bar>k\<bar> mod 10) = 0 \<longleftrightarrow> \<bar>k\<bar> mod 10 = 0"
    by (cases "k = 0") (auto simp: sgn_if)
  moreover have "\<bar>k\<bar> mod 10 = 0 \<longleftrightarrow> 10 dvd k"
    by (metis dvd_abs_iff dvd_eq_mod_eq_0)
  ultimately show ?thesis by simp
qed

lemma is_valid_line_number_iff:
  "is_valid_line_number n s \<longleftrightarrow>
     10 \<le> sint n \<and> 10 dvd sint n
     \<and> (finished (tokenizer s) \<or> peek_char (tokenizer s) = CHR '' ''
         \<or> peek_char (tokenizer s) = CHR 0x0D \<or> peek_char (tokenizer s) = CHR 0x0A)"
  by (auto simp: is_valid_line_number_def Let_def smod_10_dvd)

text \<open>
  \<open>scanned_from k P i\<close>: a scan of the tokens \<open>P\<close> that starts at token \<open>k\<close> and stops
  where the token source is finished comes to token \<open>i\<close>.
\<close>

definition scanned_from :: "nat \<Rightarrow> token list \<Rightarrow> nat \<Rightarrow> bool" where
  "scanned_from k P i \<longleftrightarrow>
     k \<le> i \<and> i < length P \<and> list_all (\<lambda>e. \<not> fin e) (take (Suc i - k) (drop k P))"

lemma scanned_from_iff:
  "scanned_from k P i \<longleftrightarrow> k \<le> i \<and> i < length P \<and> (\<forall>j. k \<le> j \<and> j \<le> i \<longrightarrow> \<not> fin (P ! j))"
proof (cases "k \<le> i \<and> i < length P")
  case False
  then show ?thesis by (auto simp: scanned_from_def)
next
  case True
  then have len: "length (take (Suc i - k) (drop k P)) = Suc i - k" by auto
  have "list_all (\<lambda>e. \<not> fin e) (take (Suc i - k) (drop k P))
          \<longleftrightarrow> (\<forall>m < Suc i - k. \<not> fin (P ! (k + m)))"
    using True by (auto simp: list_all_length)
  also have "\<dots> \<longleftrightarrow> (\<forall>j. k \<le> j \<and> j \<le> i \<longrightarrow> \<not> fin (P ! j))"
  proof (intro iffI allI impI)
    fix j assume a: "\<forall>m < Suc i - k. \<not> fin (P ! (k + m))" and j: "k \<le> j \<and> j \<le> i"
    then have "j - k < Suc i - k" by auto
    with a have "\<not> fin (P ! (k + (j - k)))" by blast
    with j show "\<not> fin (P ! j)" by simp
  next
    fix m assume a: "\<forall>j. k \<le> j \<and> j \<le> i \<longrightarrow> \<not> fin (P ! j)" and "m < Suc i - k"
    then show "\<not> fin (P ! (k + m))" by auto
  qed
  finally show ?thesis using True by (simp add: scanned_from_def)
qed

lemma is_valid_line_number_at:
  "is_valid_line_number n s
     = is_valid_line_number n (at_token (pos (tokenizer s)) (program (tokenizer s)))"
  by (simp add: is_valid_line_number_def at_token_def finished_def peek_char_def
      current_entry_def)

lemma scanned_from_finished:
  "finished (tokenizer s) \<Longrightarrow> \<not> scanned_from (pos (tokenizer s)) (program (tokenizer s)) i"
  by (auto simp: scanned_from_iff finished_def current_entry_def)

lemma scanned_from_step:
  assumes "\<not> finished (tokenizer s)"
  shows "scanned_from (pos (tokenizer s)) (program (tokenizer s)) i \<longleftrightarrow>
           i = pos (tokenizer s) \<or> scanned_from (Suc (pos (tokenizer s))) (program (tokenizer s)) i"
proof -
  from assms have r: "pos (tokenizer s) < length (program (tokenizer s))"
    by (rule not_finished_in_range)
  with assms have nf: "\<not> fin (program (tokenizer s) ! pos (tokenizer s))"
    by (simp add: finished_def current_entry_def)
  show ?thesis
  proof (cases "i = pos (tokenizer s)")
    case True
    with r nf show ?thesis by (auto simp: scanned_from_iff)
  next
    case False
    have "(\<forall>j. pos (tokenizer s) \<le> j \<and> j \<le> i \<longrightarrow> \<not> fin (program (tokenizer s) ! j))
            \<longleftrightarrow> (\<forall>j. Suc (pos (tokenizer s)) \<le> j \<and> j \<le> i \<longrightarrow> \<not> fin (program (tokenizer s) ! j))"
      using nf by (metis Suc_leI le_neq_implies_less Suc_leD)
    with False show ?thesis by (auto simp: scanned_from_iff)
  qed
qed

text \<open>
  The line index as the specification describes it: the values of the number tokens that
  a scan from the first token comes to and that satisfy the heuristic there.
\<close>

definition recorded_from :: "nat \<Rightarrow> token list \<Rightarrow> cint \<Rightarrow> bool" where
  "recorded_from k P n \<longleftrightarrow>
     (\<exists>i\<in>set [k..<length P]. scanned_from k P i \<and> kind (P ! i) = NUMBER \<and> num (P ! i) = n
         \<and> is_valid_line_number n (at_token i P))"

lemma recorded_from_finished:
  "finished (tokenizer s) \<Longrightarrow> \<not> recorded_from (pos (tokenizer s)) (program (tokenizer s)) n"
  by (auto simp: recorded_from_def scanned_from_finished)

lemma recorded_from_step:
  assumes "\<not> finished (tokenizer s)"
  shows "recorded_from (pos (tokenizer s)) (program (tokenizer s)) n \<longleftrightarrow>
           (tok s = NUMBER \<and> get_num (tokenizer s) = n \<and> is_valid_line_number n s)
           \<or> recorded_from (Suc (pos (tokenizer s))) (program (tokenizer s)) n"
proof -
  let ?P = "program (tokenizer s)" and ?k = "pos (tokenizer s)"
  from assms have r: "?k < length ?P" by (rule not_finished_in_range)
  have here: "tok s = NUMBER \<and> get_num (tokenizer s) = n \<and> is_valid_line_number n s \<longleftrightarrow>
              kind (?P ! ?k) = NUMBER \<and> num (?P ! ?k) = n \<and> is_valid_line_number n (at_token ?k ?P)"
    using r is_valid_line_number_at [of n s]
    by (simp add: tok_def current_token_def get_num_def current_entry_def)
  have "recorded_from ?k ?P n \<longleftrightarrow>
          (\<exists>i. scanned_from ?k ?P i \<and> kind (?P ! i) = NUMBER \<and> num (?P ! i) = n
               \<and> is_valid_line_number n (at_token i ?P))"
    by (auto simp: recorded_from_def scanned_from_iff)
  also have "\<dots> \<longleftrightarrow>
          (kind (?P ! ?k) = NUMBER \<and> num (?P ! ?k) = n \<and> is_valid_line_number n (at_token ?k ?P))
          \<or> (\<exists>i. scanned_from (Suc ?k) ?P i \<and> kind (?P ! i) = NUMBER \<and> num (?P ! i) = n
               \<and> is_valid_line_number n (at_token i ?P))"
    by (auto simp: scanned_from_step [OF assms])
  also have "(\<exists>i. scanned_from (Suc ?k) ?P i \<and> kind (?P ! i) = NUMBER \<and> num (?P ! i) = n
               \<and> is_valid_line_number n (at_token i ?P)) \<longleftrightarrow> recorded_from (Suc ?k) ?P n"
    by (auto simp: recorded_from_def scanned_from_iff)
  finally show ?thesis using here by simp
qed

lemma build_loop_index:
  "line_positions (build_loop s) n
     = (if recorded_from (pos (tokenizer s)) (program (tokenizer s)) n then Some True
        else line_positions s n)"
proof (induction s rule: build_loop.induct)
  case (1 s)
  show ?case
  proof (cases "finished (tokenizer s)")
    case True
    then show ?thesis
      by (simp add: build_loop.simps [of s] recorded_from_finished)
  next
    case nf: False
    define s1 where "s1 = (if tok s = NUMBER then
                     (let val = get_num (tokenizer s) in
                      if is_valid_line_number val s
                      then s\<lparr>line_positions := (line_positions s)(val \<mapsto> True)\<rparr>
                      else s)
                   else s)"
    have b: "build_loop s = build_loop (advance s1)"
      using nf by (simp add: build_loop.simps [of s] s1_def Let_def)
    have t: "tokenizer s1 = tokenizer s" by (simp add: s1_def Let_def)
    from nf have r: "pos (tokenizer s) < length (program (tokenizer s))"
      by (rule not_finished_in_range)
    have pa: "program (tokenizer (advance s1)) = program (tokenizer s)"
      "pos (tokenizer (advance s1)) = Suc (pos (tokenizer s))"
      using r t by (simp_all add: advance_def next_token_def)
    have lp: "line_positions (advance s1) n
                = (if tok s = NUMBER \<and> get_num (tokenizer s) = n \<and> is_valid_line_number n s
                   then Some True else line_positions s n)"
      by (auto simp: s1_def Let_def)
    have "line_positions (build_loop (advance s1)) n
            = (if recorded_from (pos (tokenizer (advance s1))) (program (tokenizer (advance s1))) n
               then Some True else line_positions (advance s1) n)"
      using "1.IH" [OF nf refl] by (simp add: s1_def)
    then show ?thesis
      unfolding b pa lp using recorded_from_step [OF nf, of n] by auto
  qed
qed

lemma build_loop_others:
  "variables (build_loop s) = variables s \<and> execution_finished (build_loop s) = execution_finished s
   \<and> skip_to_line (build_loop s) = skip_to_line s \<and> target_line (build_loop s) = target_line s
   \<and> cout (build_loop s) = cout s \<and> cerr (build_loop s) = cerr s
   \<and> program (tokenizer (build_loop s)) = program (tokenizer s)"
proof (induction s rule: build_loop.induct)
  case (1 s)
  show ?case
  proof (cases "finished (tokenizer s)")
    case True
    then show ?thesis by (simp add: build_loop.simps [of s])
  next
    case nf: False
    define s1 where "s1 = (if tok s = NUMBER then
                     (let val = get_num (tokenizer s) in
                      if is_valid_line_number val s
                      then s\<lparr>line_positions := (line_positions s)(val \<mapsto> True)\<rparr>
                      else s)
                   else s)"
    have b: "build_loop s = build_loop (advance s1)"
      using nf by (simp add: build_loop.simps [of s] s1_def Let_def)
    have "variables (advance s1) = variables s \<and> execution_finished (advance s1) = execution_finished s
      \<and> skip_to_line (advance s1) = skip_to_line s \<and> target_line (advance s1) = target_line s
      \<and> cout (advance s1) = cout s \<and> cerr (advance s1) = cerr s
      \<and> program (tokenizer (advance s1)) = program (tokenizer s)"
      by (simp add: s1_def Let_def advance_def next_token_def)
    moreover have "variables (build_loop (advance s1)) = variables (advance s1)
      \<and> execution_finished (build_loop (advance s1)) = execution_finished (advance s1)
      \<and> skip_to_line (build_loop (advance s1)) = skip_to_line (advance s1)
      \<and> target_line (build_loop (advance s1)) = target_line (advance s1)
      \<and> cout (build_loop (advance s1)) = cout (advance s1)
      \<and> cerr (build_loop (advance s1)) = cerr (advance s1)
      \<and> program (tokenizer (build_loop (advance s1))) = program (tokenizer (advance s1))"
      using "1.IH" [OF nf refl] by (simp add: s1_def)
    ultimately show ?thesis unfolding b by simp
  qed
qed

text \<open>The index that \<open>build_line_map\<close> leaves is that set, whatever the index was before.\<close>

lemma build_line_map_index:
  "line_positions (build_line_map s)
     = (\<lambda>n. if recorded_from 0 (program (tokenizer s)) n then Some True else None)"
proof
  fix n
  let ?s1 = "s\<lparr>line_positions := Map.empty, tokenizer := reset (tokenizer s)\<rparr>"
  have "line_positions (build_line_map s) n = line_positions (build_loop ?s1) n"
    by (simp add: build_line_map_def Let_def)
  also have "\<dots> = (if recorded_from 0 (program (tokenizer s)) n then Some True else None)"
    using build_loop_index [of ?s1 n] by (simp add: reset_def)
  finally show "line_positions (build_line_map s) n
                  = (if recorded_from 0 (program (tokenizer s)) n then Some True else None)" .
qed


text \<open>
  C1, as the code has it. After the first \<open>term\<close>, \<open>expression\<close> returns the value of
  that term and leaves the next token where it is exactly when the next token is neither
  \<open>+\<close> nor \<open>-\<close>: so at every number token, whether the number satisfies the line-number
  heuristic or not. The heuristic \<open>is_valid_line_number\<close> holds of a number that is at
  least 10 and a multiple of 10 where the token source is finished or the next raw
  character is a space, a carriage return or a line feed; and the line index that
  \<open>build_line_map\<close> builds holds exactly the values of the number tokens that the scan
  comes to, before the token source is finished, and that satisfy it.
\<close>

theorem expression_stop_and_line_index:
  "(term' s = Inr (v, s1) \<longrightarrow>
      (expression s = Inr (v, s1) \<longleftrightarrow> tok s1 \<noteq> PLUS \<and> tok s1 \<noteq> MINUS))
   \<and> (term' s = Inr (v, s1) \<and> tok s1 = NUMBER \<longrightarrow> expression s = Inr (v, s1))
   \<and> (is_valid_line_number n s \<longleftrightarrow>
        10 \<le> sint n \<and> 10 dvd sint n
        \<and> (finished (tokenizer s) \<or> peek_char (tokenizer s) = CHR '' ''
            \<or> peek_char (tokenizer s) = CHR 0x0D \<or> peek_char (tokenizer s) = CHR 0x0A))
   \<and> (line_positions (build_line_map s) n \<noteq> None
        \<longleftrightarrow> recorded_from 0 (program (tokenizer s)) n)"
proof (intro conjI impI)
  assume t: "term' s = Inr (v, s1)"
  show "expression s = Inr (v, s1) \<longleftrightarrow> tok s1 \<noteq> PLUS \<and> tok s1 \<noteq> MINUS"
    using expression_stops [OF t] expression_goes_on [OF t, of v] by blast
next
  assume "term' s = Inr (v, s1) \<and> tok s1 = NUMBER"
  then show "expression s = Inr (v, s1)" by (simp add: expression_stops)
next
  show "is_valid_line_number n s \<longleftrightarrow>
        10 \<le> sint n \<and> 10 dvd sint n
        \<and> (finished (tokenizer s) \<or> peek_char (tokenizer s) = CHR '' ''
            \<or> peek_char (tokenizer s) = CHR 0x0D \<or> peek_char (tokenizer s) = CHR 0x0A)"
    by (rule is_valid_line_number_iff)
next
  show "line_positions (build_line_map s) n \<noteq> None
        \<longleftrightarrow> recorded_from 0 (program (tokenizer s)) n"
    by (auto simp: build_line_map_index)
qed

text \<open>
  The tokens of \<open>1 5\<close> before a line feed: after the term \<open>1\<close> the next token is the
  number 5, which is no line number, and \<open>expression\<close> stops in front of it all the same.
\<close>

definition two_numbers :: SUBARUU where
  "two_numbers = at_token 0 [tnum 1 CHR '' '', tnum 5 CHR 0x0A, tk EOL CHR 0x00]"

lemma two_numbers_facts:
  "\<not> isl (term' two_numbers)
   \<and> fst (projr (term' two_numbers)) = 1
   \<and> tok (snd (projr (term' two_numbers))) = NUMBER
   \<and> get_num (tokenizer (snd (projr (term' two_numbers)))) = 5
   \<and> \<not> is_valid_line_number 5 (snd (projr (term' two_numbers)))
   \<and> pos (tokenizer (snd (projr (term' two_numbers)))) = 1"
  by code_simp

text \<open>
  C1 as stated fails there: \<open>expression\<close> returns the term's value without consuming the
  next token, and the next token is a number that does not satisfy the heuristic.
\<close>

theorem expression_early_exit_counterexample:
  "term' two_numbers = Inr (1, snd (projr (term' two_numbers)))
   \<and> expression two_numbers = Inr (1, snd (projr (term' two_numbers)))
   \<and> tok (snd (projr (term' two_numbers))) = NUMBER
   \<and> \<not> is_valid_line_number (get_num (tokenizer (snd (projr (term' two_numbers)))))
         (snd (projr (term' two_numbers)))"
proof -
  have t: "term' two_numbers = Inr (1, snd (projr (term' two_numbers)))"
    using two_numbers_facts by (metis prod.collapse sum.collapse(2))
  have "expression two_numbers = Inr (1, snd (projr (term' two_numbers)))"
    using expression_stops [OF t] two_numbers_facts by simp
  with t show ?thesis using two_numbers_facts by simp
qed

lemma goto_40_recorded:
  "recorded_from 0 (program (tokenizer goto_40)) 40
   \<and> \<not> recorded_from 0 (program (tokenizer goto_40)) 45"
  by code_simp

theorem expression_stop_and_line_index_witness:
  "term' two_numbers = Inr (1, snd (projr (term' two_numbers)))
   \<and> tok (snd (projr (term' two_numbers))) = NUMBER
   \<and> expression two_numbers = Inr (1, snd (projr (term' two_numbers)))
   \<and> recorded_from 0 (program (tokenizer goto_40)) 40
   \<and> line_positions (build_line_map goto_40) 40 \<noteq> None
   \<and> \<not> recorded_from 0 (program (tokenizer goto_40)) 45
   \<and> line_positions (build_line_map goto_40) 45 = None
   \<and> \<not> is_valid_line_number 5 (snd (projr (term' two_numbers)))"
proof -
  let ?s1 = "snd (projr (term' two_numbers))"
  have t: "term' two_numbers = Inr (1, ?s1)"
    using two_numbers_facts by (metis prod.collapse sum.collapse(2))
  have n: "tok ?s1 = NUMBER" using two_numbers_facts by simp
  have e: "expression two_numbers = Inr (1, ?s1)"
    using expression_stop_and_line_index [of two_numbers 1 ?s1] t n by simp
  have i40: "line_positions (build_line_map goto_40) 40 \<noteq> None"
    using expression_stop_and_line_index [of goto_40 _ _ 40] goto_40_recorded
    by simp
  have i45: "line_positions (build_line_map goto_40) 45 = None"
    using expression_stop_and_line_index [of goto_40 _ _ 45] goto_40_recorded
    by simp
  have v: "\<not> is_valid_line_number 5 ?s1" using two_numbers_facts by simp
  show ?thesis
    using goto_40_recorded by (intro conjI t n e i40 i45 v) simp_all
qed

subsection \<open>Where the item loop of PRINT stops\<close>

lemma is_line_number_iff:
  "is_line_number s \<longleftrightarrow>
     tok s = NUMBER \<and> 10 \<le> sint (get_num (tokenizer s)) \<and> 10 dvd sint (get_num (tokenizer s))
     \<and> (peek_char (tokenizer s) = CHR '' '' \<or> peek_char (tokenizer s) = CHR 0x0D
         \<or> peek_char (tokenizer s) = CHR 0x0A)"
  by (auto simp: is_line_number_def Let_def smod_10_dvd)

text \<open>The tokens at which the item loop goes round once more.\<close>

definition print_item_token :: "TokenType \<Rightarrow> bool" where
  "print_item_token t \<longleftrightarrow>
     t = STRING \<or> t = SEPARATOR \<or> t = LETTER \<or> t = NUMBER \<or> t = LEFT_PAREN"

definition print_stops :: "SUBARUU \<Rightarrow> bool" where
  "print_stops s \<longleftrightarrow>
     finished (tokenizer s) \<or> tok s = EOL \<or> tok s = EOF_TOKEN \<or> is_line_number s
     \<or> \<not> print_item_token (tok s)"

lemma print_loop_stop: "print_stops s \<Longrightarrow> print_loop need_space s = Inr s"
  by (subst print_loop.simps)
    (auto simp: print_stops_def print_item_token_def is_statement_end_def Let_def
          split: TokenType.splits)

lemma print_loop_remaining:
  "print_loop need_space s = Inr s' \<Longrightarrow>
     remaining s' \<le> remaining s \<and> (\<not> print_stops s \<longrightarrow> remaining s' < remaining s)"
proof (induction need_space s rule: print_loop.induct)
  case (1 need_space s)
  show ?case
  proof (cases "print_stops s")
    case True
    with "1.prems" show ?thesis by (simp add: print_loop_stop)
  next
    case False
    then have nf: "\<not> finished (tokenizer s)" and ne: "\<not> is_statement_end (tok s)"
      and nl: "\<not> is_line_number s" and it: "print_item_token (tok s)"
      by (auto simp: print_stops_def is_statement_end_def)
    let ?sp = "s\<lparr>cout := cout s @ (if need_space then '' '' else [])\<rparr>"
    from it consider (str) "tok s = STRING" | (sep) "tok s = SEPARATOR"
      | (expr) "tok s = LETTER \<or> tok s = NUMBER \<or> tok s = LEFT_PAREN"
      by (auto simp: print_item_token_def)
    then have "remaining s' < remaining s"
    proof cases
      case str
      let ?n = "advance (s\<lparr>cout := cout s @ (if need_space then '' '' else [])
                                       @ get_string (tokenizer s)\<rparr>)"
      from str nf ne nl "1.prems" have "print_loop True ?n = Inr s'"
        by (simp add: print_loop.simps [of need_space s] Let_def)
      from "1.IH"(3) [OF nf refl ne nl str this] have "remaining s' \<le> remaining ?n" by simp
      with remaining_advance_not_finished [OF nf] show ?thesis
        by (simp add: advance_cout_update)
    next
      case sep
      let ?n = "advance (s\<lparr>cout := cout s @ '' ''\<rparr>)"
      from sep nf ne nl "1.prems" have "print_loop False ?n = Inr s'"
        by (simp add: print_loop.simps [of need_space s] Let_def)
      from "1.IH"(4) [OF nf refl ne nl sep this] have "remaining s' \<le> remaining ?n" by simp
      with remaining_advance_not_finished [OF nf] show ?thesis
        by (simp add: advance_cout_update)
    next
      case expr
      with nf ne nl "1.prems" obtain v s1 where e: "expression ?sp = Inr (v, s1)"
        and p: "print_loop True (s1\<lparr>cout := cout s1 @ to_string v\<rparr>) = Inr s'"
        by (auto simp: print_loop.simps [of need_space s] Let_def split: sum.splits)
      from expr have "remaining s' \<le> remaining (s1\<lparr>cout := cout s1 @ to_string v\<rparr>)"
      proof (elim disjE)
        assume t: "tok s = LETTER"
        from "1.IH"(2) [OF nf refl ne nl t e refl p] show ?thesis by simp
      next
        assume t: "tok s = NUMBER"
        from "1.IH"(1) [OF nf refl ne nl t e refl p] show ?thesis by simp
      next
        assume t: "tok s = LEFT_PAREN"
        from "1.IH"(5) [OF nf refl ne nl t e refl p] show ?thesis by simp
      qed
      with remaining_expression_cout [OF e] show ?thesis by simp
    qed
    with False show ?thesis by simp
  qed
qed

lemma print_loop_stops_iff: "print_loop need_space s = Inr s \<longleftrightarrow> print_stops s"
  using print_loop_stop [of s need_space] print_loop_remaining [of need_space s s] by auto


lemma is_line_number_cout [simp]: "is_line_number (s\<lparr>cout := c\<rparr>) = is_line_number s"
  by (simp add: is_line_number_def tok_def)

lemma print_statement_line_number:
  assumes "accept PRINT s = Inr s0" "print_loop False s0 = Inr s1" "is_line_number s1"
  shows "print_statement' s = Inr (s1\<lparr>cout := cout s1 @ [CHR 0x0A]\<rparr>)"
  using assms by (simp add: print_statement'_def Let_def)

lemma print_loop_ends_stopped: "print_loop need_space s = Inr s' \<Longrightarrow> print_stops s'"
proof (induction need_space s rule: print_loop.induct)
  case (1 need_space s)
  show ?case
  proof (cases "print_stops s")
    case True
    with "1.prems" show ?thesis by (simp add: print_loop_stop)
  next
    case False
    then have nf: "\<not> finished (tokenizer s)" and ne: "\<not> is_statement_end (tok s)"
      and nl: "\<not> is_line_number s" and it: "print_item_token (tok s)"
      by (auto simp: print_stops_def is_statement_end_def)
    let ?sp = "s\<lparr>cout := cout s @ (if need_space then '' '' else [])\<rparr>"
    from it consider (str) "tok s = STRING" | (sep) "tok s = SEPARATOR"
      | (expr) "tok s = LETTER \<or> tok s = NUMBER \<or> tok s = LEFT_PAREN"
      by (auto simp: print_item_token_def)
    then show ?thesis
    proof cases
      case str
      let ?n = "advance (s\<lparr>cout := cout s @ (if need_space then '' '' else [])
                                       @ get_string (tokenizer s)\<rparr>)"
      from str nf ne nl "1.prems" have p: "print_loop True ?n = Inr s'"
        by (simp add: print_loop.simps [of need_space s] Let_def)
      from "1.IH"(3) [OF nf refl ne nl str p] show ?thesis .
    next
      case sep
      let ?n = "advance (s\<lparr>cout := cout s @ '' ''\<rparr>)"
      from sep nf ne nl "1.prems" have p: "print_loop False ?n = Inr s'"
        by (simp add: print_loop.simps [of need_space s] Let_def)
      from "1.IH"(4) [OF nf refl ne nl sep p] show ?thesis .
    next
      case expr
      with nf ne nl "1.prems" obtain v s1 where e: "expression ?sp = Inr (v, s1)"
        and p: "print_loop True (s1\<lparr>cout := cout s1 @ to_string v\<rparr>) = Inr s'"
        by (auto simp: print_loop.simps [of need_space s] Let_def split: sum.splits)
      from expr show ?thesis
      proof (elim disjE)
        assume t: "tok s = LETTER"
        from "1.IH"(2) [OF nf refl ne nl t e refl p] show ?thesis .
      next
        assume t: "tok s = NUMBER"
        from "1.IH"(1) [OF nf refl ne nl t e refl p] show ?thesis .
      next
        assume t: "tok s = LEFT_PAREN"
        from "1.IH"(5) [OF nf refl ne nl t e refl p] show ?thesis .
      qed
    qed
  qed
qed

text \<open>
  C6, as the code has it. The item loop stops, with nothing consumed and nothing written,
  exactly when the token source is finished, the current token is the end of the line or
  of the file, the current token is a number that satisfies the weaker heuristic (at least
  10, a multiple of 10, the next raw character a space, a carriage return or a line feed,
  with no allowance for a finished source), or the current token is none of those that
  start an item (a string, a separator, a letter, a number, a left parenthesis). Where
  the loop has stopped at such a number, the statement writes the newline and returns
  with the cursor still on the number. And the loop stops nowhere else: whenever it
  returns, the state it returns is one of these.
\<close>

theorem print_loop_stop_spec:
  "(print_loop need_space s = Inr s \<longleftrightarrow>
      finished (tokenizer s) \<or> tok s = EOL \<or> tok s = EOF_TOKEN \<or> is_line_number s
      \<or> \<not> print_item_token (tok s))
   \<and> (is_line_number s \<longleftrightarrow>
        tok s = NUMBER \<and> 10 \<le> sint (get_num (tokenizer s))
        \<and> 10 dvd sint (get_num (tokenizer s))
        \<and> (peek_char (tokenizer s) = CHR '' '' \<or> peek_char (tokenizer s) = CHR 0x0D
            \<or> peek_char (tokenizer s) = CHR 0x0A))
   \<and> (accept PRINT s = Inr s0 \<and> print_loop False s0 = Inr s1 \<and> is_line_number s1 \<longrightarrow>
        print_statement' s = Inr (s1\<lparr>cout := cout s1 @ [CHR 0x0A]\<rparr>)
        \<and> tokenizer (s1\<lparr>cout := cout s1 @ [CHR 0x0A]\<rparr>) = tokenizer s1)
   \<and> (print_loop need_space s = Inr s' \<longrightarrow>
        finished (tokenizer s') \<or> tok s' = EOL \<or> tok s' = EOF_TOKEN \<or> is_line_number s'
        \<or> \<not> print_item_token (tok s'))"
  using print_loop_stops_iff [of need_space s] is_line_number_iff [of s]
    print_statement_line_number [of s s0 s1] print_loop_ends_stopped [of need_space s s']
  by (simp add: print_stops_def)

text \<open>
  The tokens of \<open>PRINT 1 = 2\<close>, with the cursor on the \<open>=\<close>: the loop stops there, at a
  token that is neither the end of the line or file nor a line number.
\<close>

definition print_equal :: SUBARUU where
  "print_equal = at_token 2 [tk PRINT CHR '' '', tnum 1 CHR '' '', tk EQUAL CHR '' '',
                             tnum 2 CHR 0x0A, tk EOL CHR 0x00]"

lemma print_equal_facts:
  "print_stops print_equal \<and> \<not> finished (tokenizer print_equal) \<and> tok print_equal = EQUAL
   \<and> \<not> is_line_number print_equal"
  by code_simp

theorem print_loop_stop_counterexample:
  "print_loop False print_equal = Inr print_equal
   \<and> \<not> finished (tokenizer print_equal)
   \<and> tok print_equal \<noteq> EOL \<and> tok print_equal \<noteq> EOF_TOKEN
   \<and> \<not> is_line_number print_equal"
  using print_equal_facts print_loop_stop [of print_equal False] by simp

text \<open>
  The tokens of \<open>10 PRINT "A" 20 PRINT "B"\<close> on one line, with the cursor on the first
  \<open>PRINT\<close>.
\<close>

definition print_then_line :: SUBARUU where
  "print_then_line = at_token 1 [tnum 10 CHR '' '', tk PRINT CHR '' '', tstr ''A'' CHR '' '',
                                 tnum 20 CHR '' '', tk PRINT CHR '' '', tstr ''B'' CHR 0x0A,
                                 tk EOL CHR 0x00]"

lemma print_then_line_facts:
  "tok print_then_line = PRINT
   \<and> \<not> isl (print_loop False (advance print_then_line))
   \<and> is_line_number (projr (print_loop False (advance print_then_line)))
   \<and> pos (tokenizer (projr (print_loop False (advance print_then_line)))) = 3
   \<and> cout (projr (print_loop False (advance print_then_line))) = ''A''"
  by code_simp

theorem print_loop_stop_spec_witness:
  "accept PRINT print_then_line = Inr (advance print_then_line)
   \<and> print_loop False (advance print_then_line)
       = Inr (projr (print_loop False (advance print_then_line)))
   \<and> is_line_number (projr (print_loop False (advance print_then_line)))
   \<and> print_loop True (projr (print_loop False (advance print_then_line)))
       = Inr (projr (print_loop False (advance print_then_line)))
   \<and> print_statement' print_then_line
       = Inr ((projr (print_loop False (advance print_then_line)))
               \<lparr>cout := cout (projr (print_loop False (advance print_then_line))) @ [CHR 0x0A]\<rparr>)
   \<and> pos (tokenizer (projr (print_loop False (advance print_then_line)))) = 3"
proof -
  let ?s1 = "projr (print_loop False (advance print_then_line))"
  have a: "accept PRINT print_then_line = Inr (advance print_then_line)"
    using print_then_line_facts by simp
  have l: "print_loop False (advance print_then_line) = Inr ?s1"
    using print_then_line_facts by simp
  have n: "is_line_number ?s1" using print_then_line_facts by simp
  have st: "print_loop True ?s1 = Inr ?s1"
    using print_loop_stop_spec [of True ?s1] n by simp
  have p: "print_statement' print_then_line = Inr (?s1\<lparr>cout := cout ?s1 @ [CHR 0x0A]\<rparr>)"
    using print_loop_stop_spec [of False print_then_line "advance print_then_line" ?s1] a l n
    by simp
  have q: "pos (tokenizer ?s1) = 3" using print_then_line_facts by simp
  show ?thesis by (intro conjI a l n st p q)
qed

subsection \<open>The spacing of PRINT\<close>

text \<open>
  What one round of the item loop emits: an item (the text of a string literal or of the
  value of an expression) or the space of a separator token.
\<close>

datatype item = Item string | Sep

text \<open>
  The output as the specification describes it: the items in their order, each separator
  as one space, and one space between two items that follow each other with no separator
  between them.
\<close>

fun is_item :: "item \<Rightarrow> bool" where
  "is_item (Item t) = True"
| "is_item Sep = False"

fun item_text :: "item \<Rightarrow> string" where
  "item_text (Item t) = t"
| "item_text Sep = '' ''"

fun joined :: "item list \<Rightarrow> string" where
  "joined [] = []"
| "joined [x] = item_text x"
| "joined (x # y # xs) =
     item_text x @ (if is_item x \<and> is_item y then '' '' else []) @ joined (y # xs)"

text \<open>
  The items that the item loop emits from a state: \<open>print_loop\<close> with the emitted items
  as its result (and the empty list where an expression throws).
\<close>

function print_items :: "bool \<Rightarrow> SUBARUU \<Rightarrow> item list" where
  "print_items need_space s =
     (if \<not> finished (tokenizer s) then
        (let token = tok s in
         if is_statement_end token then []
         else if is_line_number s then []
         else
           (case token of
              STRING \<Rightarrow>
                Item (get_string (tokenizer s)) #
                print_items True
                  (advance (s\<lparr>cout := cout s @ (if need_space then '' '' else [])
                                       @ get_string (tokenizer s)\<rparr>))
            | SEPARATOR \<Rightarrow> Sep # print_items False (advance (s\<lparr>cout := cout s @ '' ''\<rparr>))
            | LETTER \<Rightarrow>
                (case expression (s\<lparr>cout := cout s @ (if need_space then '' '' else [])\<rparr>) of
                   Inl e \<Rightarrow> []
                 | Inr (v, s1) \<Rightarrow>
                     Item (to_string v) # print_items True (s1\<lparr>cout := cout s1 @ to_string v\<rparr>))
            | NUMBER \<Rightarrow>
                (case expression (s\<lparr>cout := cout s @ (if need_space then '' '' else [])\<rparr>) of
                   Inl e \<Rightarrow> []
                 | Inr (v, s1) \<Rightarrow>
                     Item (to_string v) # print_items True (s1\<lparr>cout := cout s1 @ to_string v\<rparr>))
            | LEFT_PAREN \<Rightarrow>
                (case expression (s\<lparr>cout := cout s @ (if need_space then '' '' else [])\<rparr>) of
                   Inl e \<Rightarrow> []
                 | Inr (v, s1) \<Rightarrow>
                     Item (to_string v) # print_items True (s1\<lparr>cout := cout s1 @ to_string v\<rparr>))
            | _ \<Rightarrow> []))
      else [])"
  by pat_completeness auto
termination print_items
  by (relation "measure (\<lambda>(n, s). remaining s)")
    (auto simp: advance_cout_update remaining_advance_not_finished
          dest: remaining_expression_cout)

declare print_items.simps [simp del]

lemma print_items_stop: "print_stops s \<Longrightarrow> print_items need_space s = []"
  by (subst print_items.simps)
    (auto simp: print_stops_def print_item_token_def is_statement_end_def Let_def
          split: TokenType.splits)

definition starts_with_item :: "item list \<Rightarrow> bool" where
  "starts_with_item xs = (case xs of [] \<Rightarrow> False | x # _ \<Rightarrow> is_item x)"

lemma joined_Cons:
  "joined (x # xs)
     = item_text x @ (if is_item x \<and> starts_with_item xs then '' '' else []) @ joined xs"
  by (cases xs) (simp_all add: starts_with_item_def)

lemma print_loop_joined:
  "print_loop need_space s = Inr s' \<Longrightarrow>
     cout s' = cout s
               @ (if need_space \<and> starts_with_item (print_items need_space s) then '' '' else [])
               @ joined (print_items need_space s)"
proof (induction need_space s rule: print_loop.induct)
  case (1 need_space s)
  show ?case
  proof (cases "print_stops s")
    case True
    with "1.prems" show ?thesis
      by (simp add: print_loop_stop print_items_stop starts_with_item_def)
  next
    case False
    then have nf: "\<not> finished (tokenizer s)" and ne: "\<not> is_statement_end (tok s)"
      and nl: "\<not> is_line_number s" and it: "print_item_token (tok s)"
      by (auto simp: print_stops_def is_statement_end_def)
    let ?sp = "s\<lparr>cout := cout s @ (if need_space then '' '' else [])\<rparr>"
    from it consider (str) "tok s = STRING" | (sep) "tok s = SEPARATOR"
      | (expr) "tok s = LETTER \<or> tok s = NUMBER \<or> tok s = LEFT_PAREN"
      by (auto simp: print_item_token_def)
    then show ?thesis
    proof cases
      case str
      let ?n = "advance (s\<lparr>cout := cout s @ (if need_space then '' '' else [])
                                       @ get_string (tokenizer s)\<rparr>)"
      from str nf ne nl "1.prems" have p: "print_loop True ?n = Inr s'"
        by (simp add: print_loop.simps [of need_space s] Let_def)
      from str nf ne nl have i: "print_items need_space s
                                   = Item (get_string (tokenizer s)) # print_items True ?n"
        by (simp add: print_items.simps [of need_space s] Let_def)
      from "1.IH"(3) [OF nf refl ne nl str p] show ?thesis
        unfolding i by (simp add: joined_Cons starts_with_item_def advance_def)
    next
      case sep
      let ?n = "advance (s\<lparr>cout := cout s @ '' ''\<rparr>)"
      from sep nf ne nl "1.prems" have p: "print_loop False ?n = Inr s'"
        by (simp add: print_loop.simps [of need_space s] Let_def)
      from sep nf ne nl have i: "print_items need_space s = Sep # print_items False ?n"
        by (simp add: print_items.simps [of need_space s] Let_def)
      from "1.IH"(4) [OF nf refl ne nl sep p] show ?thesis
        unfolding i by (simp add: joined_Cons starts_with_item_def advance_def)
    next
      case expr
      with nf ne nl "1.prems" obtain v s1 where e: "expression ?sp = Inr (v, s1)"
        and p: "print_loop True (s1\<lparr>cout := cout s1 @ to_string v\<rparr>) = Inr s'"
        by (auto simp: print_loop.simps [of need_space s] Let_def split: sum.splits)
      from expr nf ne nl e have i: "print_items need_space s
          = Item (to_string v) # print_items True (s1\<lparr>cout := cout s1 @ to_string v\<rparr>)"
        by (auto simp: print_items.simps [of need_space s] Let_def)
      from frame_expression [OF e] have c1: "cout s1 = cout ?sp" by (simp add: frame_def)
      from expr have "cout s' = cout (s1\<lparr>cout := cout s1 @ to_string v\<rparr>)
               @ (if True \<and> starts_with_item
                     (print_items True (s1\<lparr>cout := cout s1 @ to_string v\<rparr>)) then '' '' else [])
               @ joined (print_items True (s1\<lparr>cout := cout s1 @ to_string v\<rparr>))"
      proof (elim disjE)
        assume t: "tok s = LETTER"
        from "1.IH"(2) [OF nf refl ne nl t e refl p] show ?thesis .
      next
        assume t: "tok s = NUMBER"
        from "1.IH"(1) [OF nf refl ne nl t e refl p] show ?thesis .
      next
        assume t: "tok s = LEFT_PAREN"
        from "1.IH"(5) [OF nf refl ne nl t e refl p] show ?thesis .
      qed
      then show ?thesis
        unfolding i by (simp add: joined_Cons starts_with_item_def c1)
    qed
  qed
qed

lemma print_statement_joined:
  assumes "print_statement' s = Inr s'"
  shows "cout s' = cout s @ joined (print_items False (advance s)) @ [CHR 0x0A]"
proof -
  from assms have a: "accept PRINT s = Inr (advance s)"
    by (auto simp: print_statement'_def accept_Inr_iff split: sum.splits)
  with assms obtain s1 where l: "print_loop False (advance s) = Inr s1"
    by (auto simp: print_statement'_def split: sum.splits)
  with assms a have "cout s' = cout s1 @ [CHR 0x0A]"
    by (auto simp: print_statement'_def Let_def advance_def split: if_splits)
  with print_loop_joined [OF l] show ?thesis by (simp add: advance_def)
qed


text \<open>
  C7. The text that the item loop writes is the text of the emitted items, with one space
  for each separator and one space between two items that no separator parts; a
  \<open>PRINT\<close> statement that returns has written that text and then one newline.
\<close>

theorem print_spacing:
  "(print_loop False s = Inr s' \<longrightarrow> cout s' = cout s @ joined (print_items False s))
   \<and> (print_statement' s = Inr s' \<longrightarrow>
        cout s' = cout s @ joined (print_items False (advance s)) @ [CHR 0x0A])"
  using print_loop_joined [of False s s'] print_statement_joined [of s s'] by simp

text \<open>The program \<open>10 PRINT "HI" 5\<close>.\<close>

definition hi_5_tokens :: "token list" where
  "hi_5_tokens = [tnum 10 CHR '' '', tk PRINT CHR '' '', tstr ''HI'' CHR '' '',
                  tnum 5 CHR 0x0A, tk EOL CHR 0x00]"

lemma hi_5_facts:
  "\<not> isl (print_statement' (indexed_at 1 hi_5_tokens))
   \<and> \<not> isl (print_loop False (indexed_at 2 hi_5_tokens))
   \<and> advance (indexed_at 1 hi_5_tokens) = indexed_at 2 hi_5_tokens
   \<and> cout (indexed_at 1 hi_5_tokens) = []
   \<and> cout (indexed_at 2 hi_5_tokens) = []
   \<and> print_items False (indexed_at 2 hi_5_tokens) = [Item ''HI'', Item ''5'']"
  by (simp add: indexed_at_def advance_def next_token_def hi_5_tokens_def build_line_map_def
      at_token_def SUBARUU_init_def Let_def) code_simp

lemma hi_5_run:
  "(case run 3 (SUBARUU_init hi_5_tokens) of
      Some (Inr s) \<Rightarrow> cout s = ''HI 5'' @ [CHR 0x0A] \<and> execution_finished s
    | _ \<Rightarrow> False)"
  by code_simp

theorem print_spacing_witness:
  "print_loop False (indexed_at 2 hi_5_tokens)
     = Inr (projr (print_loop False (indexed_at 2 hi_5_tokens)))
   \<and> cout (projr (print_loop False (indexed_at 2 hi_5_tokens))) = ''HI 5''
   \<and> print_statement' (indexed_at 1 hi_5_tokens)
       = Inr (projr (print_statement' (indexed_at 1 hi_5_tokens)))
   \<and> cout (projr (print_statement' (indexed_at 1 hi_5_tokens))) = ''HI 5'' @ [CHR 0x0A]
   \<and> (case run 3 (SUBARUU_init hi_5_tokens) of
        Some (Inr s) \<Rightarrow> cout s = ''HI 5'' @ [CHR 0x0A] \<and> execution_finished s
      | _ \<Rightarrow> False)"
proof -
  let ?l = "projr (print_loop False (indexed_at 2 hi_5_tokens))"
  let ?p = "projr (print_statement' (indexed_at 1 hi_5_tokens))"
  have l: "print_loop False (indexed_at 2 hi_5_tokens) = Inr ?l"
    using hi_5_facts by simp
  have p: "print_statement' (indexed_at 1 hi_5_tokens) = Inr ?p"
    using hi_5_facts by simp
  have cl: "cout ?l = ''HI 5''"
    using print_spacing [of "indexed_at 2 hi_5_tokens" ?l] l hi_5_facts by simp
  have cp: "cout ?p = ''HI 5'' @ [CHR 0x0A]"
    using print_spacing [of "indexed_at 1 hi_5_tokens" ?p] p hi_5_facts by simp
  show ?thesis by (intro conjI l cl p cp hi_5_run)
qed

subsection \<open>What statements leave unchanged\<close>

text \<open>
  \<open>kept s s'\<close>: from \<open>s\<close> to \<open>s'\<close> neither the line index nor the program has changed.
\<close>

definition kept :: "SUBARUU \<Rightarrow> SUBARUU \<Rightarrow> bool" where
  "kept s s' \<longleftrightarrow>
     line_positions s' = line_positions s \<and> program (tokenizer s') = program (tokenizer s)"

lemma kept_refl [simp]: "kept s s"
  by (simp add: kept_def)

lemma kept_trans: "kept a b \<Longrightarrow> kept b c \<Longrightarrow> kept a c"
  by (simp add: kept_def)

lemma frame_kept: "frame s s' \<Longrightarrow> kept s s' \<and> variables s' = variables s"
  by (simp add: frame_def kept_def)

lemma kept_advance [simp]: "kept s (advance s)" "variables (advance s) = variables s"
  using frame_kept [OF frame_advance [of s]] by simp_all

lemma kept_cout [simp]: "kept s (s\<lparr>cout := c\<rparr>)" "kept (s\<lparr>cout := c\<rparr>) s' = kept s s'"
  by (simp_all add: kept_def)

lemma print_loop_kept:
  "print_loop need_space s = Inr s' \<Longrightarrow> kept s s' \<and> variables s' = variables s"
proof (induction need_space s rule: print_loop.induct)
  case (1 need_space s)
  show ?case
  proof (cases "print_stops s")
    case True
    with "1.prems" show ?thesis by (simp add: print_loop_stop)
  next
    case False
    then have nf: "\<not> finished (tokenizer s)" and ne: "\<not> is_statement_end (tok s)"
      and nl: "\<not> is_line_number s" and it: "print_item_token (tok s)"
      by (auto simp: print_stops_def is_statement_end_def)
    let ?sp = "s\<lparr>cout := cout s @ (if need_space then '' '' else [])\<rparr>"
    from it consider (str) "tok s = STRING" | (sep) "tok s = SEPARATOR"
      | (expr) "tok s = LETTER \<or> tok s = NUMBER \<or> tok s = LEFT_PAREN"
      by (auto simp: print_item_token_def)
    then show ?thesis
    proof cases
      case str
      let ?n = "advance (s\<lparr>cout := cout s @ (if need_space then '' '' else [])
                                       @ get_string (tokenizer s)\<rparr>)"
      from str nf ne nl "1.prems" have p: "print_loop True ?n = Inr s'"
        by (simp add: print_loop.simps [of need_space s] Let_def)
      from "1.IH"(3) [OF nf refl ne nl str p] show ?thesis
        by (simp add: kept_def advance_def next_token_def)
    next
      case sep
      let ?n = "advance (s\<lparr>cout := cout s @ '' ''\<rparr>)"
      from sep nf ne nl "1.prems" have p: "print_loop False ?n = Inr s'"
        by (simp add: print_loop.simps [of need_space s] Let_def)
      from "1.IH"(4) [OF nf refl ne nl sep p] show ?thesis
        by (simp add: kept_def advance_def next_token_def)
    next
      case expr
      with nf ne nl "1.prems" obtain v s1 where e: "expression ?sp = Inr (v, s1)"
        and p: "print_loop True (s1\<lparr>cout := cout s1 @ to_string v\<rparr>) = Inr s'"
        by (auto simp: print_loop.simps [of need_space s] Let_def split: sum.splits)
      from frame_kept [OF frame_expression [OF e]]
      have k1: "kept s s1" "variables s1 = variables s" by simp_all
      from expr have "kept (s1\<lparr>cout := cout s1 @ to_string v\<rparr>) s'
                      \<and> variables s' = variables (s1\<lparr>cout := cout s1 @ to_string v\<rparr>)"
      proof (elim disjE)
        assume t: "tok s = LETTER"
        from "1.IH"(2) [OF nf refl ne nl t e refl p] show ?thesis .
      next
        assume t: "tok s = NUMBER"
        from "1.IH"(1) [OF nf refl ne nl t e refl p] show ?thesis .
      next
        assume t: "tok s = LEFT_PAREN"
        from "1.IH"(5) [OF nf refl ne nl t e refl p] show ?thesis .
      qed
      with k1 show ?thesis by (auto intro: kept_trans)
    qed
  qed
qed

lemma print_statement_kept:
  assumes "print_statement' s = Inr s'"
  shows "kept s s' \<and> variables s' = variables s"
proof -
  from assms have a: "accept PRINT s = Inr (advance s)"
    by (auto simp: print_statement'_def accept_Inr_iff split: sum.splits)
  with assms obtain s1 where l: "print_loop False (advance s) = Inr s1"
    by (auto simp: print_statement'_def split: sum.splits)
  with assms a have "kept s1 s' \<and> variables s' = variables s1"
    by (auto simp: print_statement'_def Let_def kept_def advance_def next_token_def
        split: if_splits)
  with print_loop_kept [OF l] show ?thesis by (auto intro: kept_trans kept_advance)
qed

lemma rewind_kept: "kept s (rewind s) \<and> variables (rewind s) = variables s"
  by (simp add: rewind_def kept_def reset_def)

lemma scan_kept:
  assumes "fst (find_target_line n (rewind s))"
  shows "kept s (snd (find_target_line n (rewind s)))
         \<and> variables (snd (find_target_line n (rewind s))) = variables s"
  using scan_found_position [OF assms] by (auto simp: kept_def)

lemma goto_statement_kept:
  assumes "goto_statement s = Inr s'"
  shows "kept s s' \<and> variables s' = variables s"
proof -
  from assms have t: "tok s = GOTO" "tok (advance s) = NUMBER" "tok (advance (advance s)) = EOL"
    by (auto simp: goto_statement_def accept_Inr_iff Let_def split: sum.splits)
  let ?n = "get_num (tokenizer (advance s))"
  from assms have "fst (find_target_line ?n (rewind s))"
    and "s' = snd (find_target_line ?n (rewind s))"
    using goto_statement_unfold [OF t] by (auto simp: Let_def split: if_splits)
  with scan_kept [of ?n s] show ?thesis by simp
qed

lemma if_statement_kept:
  assumes "if_statement s = Inr s'"
  shows "kept s s' \<and> variables s' = variables s"
proof -
  from assms obtain s1 c s2 s3 where a: "accept IF s = Inr s1" "relation s1 = Inr (c, s2)"
    "accept THEN s2 = Inr s3"
    by (auto simp: if_statement_def split: sum.splits)
  with assms have n: "tok s3 = NUMBER"
    by (auto simp: if_statement_def dprintf_def split: if_splits)
  have "frame s s3"
    using frame_accept [OF a(1)] frame_relation [OF a(2)] frame_accept [OF a(3)]
    by (blast intro: frame_trans)
  then have k3: "kept s s3" "variables s3 = variables s" using frame_kept by simp_all
  let ?n = "get_num (tokenizer s3)"
  show ?thesis
  proof (cases "c = 0")
    case True
    with assms have "s' = advance (advance s3) \<or> s' = advance s3"
      using if_statement_unfold [OF a n] by (auto simp: Let_def split: if_splits)
    moreover have "kept s3 (advance (advance s3))" "kept s3 (advance s3)"
      using kept_trans [OF kept_advance(1) [of s3] kept_advance(1) [of "advance s3"]] by simp_all
    ultimately show ?thesis using k3 by (auto intro: kept_trans)
  next
    case False
    with assms have "fst (find_target_line ?n (rewind s3))"
      and "s' = snd (find_target_line ?n (rewind s3))"
      using if_statement_unfold [OF a n] by (auto simp: Let_def split: if_splits)
    with scan_kept [of ?n s3] k3 show ?thesis by (auto intro: kept_trans)
  qed
qed

lemma let_statement_kept:
  assumes "let_statement s = Inr s'"
  shows "kept s s' \<and> tok s = LETTER \<and> tok (advance s) = EQUAL
         \<and> (\<exists>v. variables s' = (variables s)(tolower (get_token_data (tokenizer s)) \<mapsto> v))"
proof -
  from assms have l: "tok s = LETTER"
    by (auto simp: let_statement_def dprintf_def split: if_splits)
  with assms have e: "tok (advance s) = EQUAL"
    by (auto simp: let_statement_def Let_def accept_Inr_iff split: sum.splits)
  from let_statement_frame_aux [OF assms] l e show ?thesis
    by (auto simp: frame_def kept_def)
qed

lemma program_skip_to_eol: "program (skip_to_eol t) = program t"
proof (induction t rule: skip_to_eol.induct)
  case (1 t)
  show ?case
  proof (cases "pos t < length (program t)")
    case False
    then show ?thesis by (simp add: skip_to_eol.simps [of t])
  next
    case r: True
    show ?thesis
    proof (cases "current_token t = EOL")
      case True
      with r show ?thesis by (simp add: skip_to_eol.simps [of t] next_token_def)
    next
      case False
      with r "1.IH" have "program (skip_to_eol (next_token t)) = program (next_token t)" by simp
      with r False show ?thesis by (simp add: skip_to_eol.simps [of t] next_token_def)
    qed
  qed
qed

text \<open>
  \<open>assigns s c\<close>: the statement at the cursor is an assignment to the register \<open>c\<close>: it
  begins, after an optional \<open>LET\<close>, with a letter token of that register and an \<open>=\<close>.
\<close>

definition assigns :: "SUBARUU \<Rightarrow> char \<Rightarrow> bool" where
  "assigns s c \<longleftrightarrow>
     (tok s = LETTER \<and> tok (advance s) = EQUAL
        \<and> c = tolower (get_token_data (tokenizer s)))
     \<or> (tok s = LET \<and> tok (advance s) = LETTER \<and> tok (advance (advance s)) = EQUAL
         \<and> c = tolower (get_token_data (tokenizer (advance s))))"

lemma statement_kept:
  assumes "statement s = Inr s'"
  shows "kept s s'
         \<and> (variables s' = variables s
             \<or> (\<exists>c v. assigns s c \<and> variables s' = (variables s)(c \<mapsto> v)))"
proof -
  consider (rem) "tok s = REM" | (print) "tok s = PRINT" | (if') "tok s = IF"
    | (goto) "tok s = GOTO" | (let') "tok s = LET" | (letter) "tok s = LETTER"
    | (other) "tok s \<notin> {REM, PRINT, IF, GOTO, LET, LETTER}"
    by auto
  then show ?thesis
  proof cases
    case rem
    with assms have "s' = s\<lparr>tokenizer := skip_to_eol (tokenizer s)\<rparr>"
      by (simp add: statement_def)
    then show ?thesis by (simp add: kept_def program_skip_to_eol)
  next
    case print
    with assms have "print_statement' s = Inr s'" by (simp add: statement_def)
    from print_statement_kept [OF this] show ?thesis by simp
  next
    case if'
    with assms have "if_statement s = Inr s'" by (simp add: statement_def)
    from if_statement_kept [OF this] show ?thesis by simp
  next
    case goto
    with assms have "goto_statement s = Inr s'" by (simp add: statement_def)
    from goto_statement_kept [OF this] show ?thesis by simp
  next
    case let'
    with assms have l: "let_statement (advance s) = Inr s'" by (simp add: statement_def)
    from let_statement_kept [OF l] let' show ?thesis
      by (auto simp: assigns_def kept_def advance_def next_token_def)
  next
    case letter
    with assms have "let_statement s = Inr s'" by (simp add: statement_def)
    from let_statement_kept [OF this] show ?thesis by (auto simp: assigns_def)
  next
    case other
    with assms show ?thesis
      by (auto simp: statement_def dprintf_def split: TokenType.splits)
  qed
qed


lemma moved_skip_empty_lines: "moved s (skip_empty_lines s)"
proof (induction s rule: skip_empty_lines.induct)
  case (1 s)
  show ?case
  proof (cases "tok s = EOL")
    case True
    with 1 have "moved (advance s) (skip_empty_lines (advance s))" by blast
    with True show ?thesis
      using moved_trans [OF moved_advance [of s]]
      by (simp add: skip_empty_lines.simps [of s])
  next
    case False
    then show ?thesis by (simp add: skip_empty_lines.simps [of s])
  qed
qed

lemma moved_kept: "moved s s' \<Longrightarrow> kept s s' \<and> variables s' = variables s"
  using moved_frame frame_kept by blast

text \<open>
  \<open>assigned s s'\<close>: from \<open>s\<close> to \<open>s'\<close> the registers are the same, or one register has been
  set, that of the lowercase-folded letter of a letter token of the program that an \<open>=\<close>
  follows.
\<close>

definition assigned :: "SUBARUU \<Rightarrow> SUBARUU \<Rightarrow> bool" where
  "assigned s s' \<longleftrightarrow>
     variables s' = variables s
     \<or> (\<exists>i v. Suc i < length (program (tokenizer s))
             \<and> kind (program (tokenizer s) ! i) = LETTER
             \<and> kind (program (tokenizer s) ! Suc i) = EQUAL
             \<and> variables s' = (variables s)(tolower (letter (program (tokenizer s) ! i)) \<mapsto> v))"

lemma tok_LETTER_entry:
  assumes "tok s = LETTER" "tok (advance s) = EQUAL"
  shows "Suc (pos (tokenizer s)) < length (program (tokenizer s))
         \<and> kind (program (tokenizer s) ! pos (tokenizer s)) = LETTER
         \<and> kind (program (tokenizer s) ! Suc (pos (tokenizer s))) = EQUAL
         \<and> get_token_data (tokenizer s) = letter (program (tokenizer s) ! pos (tokenizer s))"
proof -
  from assms(1) have r: "pos (tokenizer s) < length (program (tokenizer s))"
    by (intro tok_not_EOF_in_range) simp
  then have a: "pos (tokenizer (advance s)) = Suc (pos (tokenizer s))"
    "program (tokenizer (advance s)) = program (tokenizer s)"
    by (simp_all add: advance_def next_token_def)
  from assms(2) have "pos (tokenizer (advance s)) < length (program (tokenizer (advance s)))"
    by (intro tok_not_EOF_in_range) simp
  with a have r2: "Suc (pos (tokenizer s)) < length (program (tokenizer s))" by simp
  from assms(2) a r2 have "kind (program (tokenizer s) ! Suc (pos (tokenizer s))) = EQUAL"
    by (simp add: tok_def current_token_def current_entry_def)
  with assms(1) r r2 show ?thesis
    by (simp add: tok_def current_token_def get_token_data_def current_entry_def)
qed

lemma assigns_entry:
  assumes "assigns s c"
  shows "\<exists>i. Suc i < length (program (tokenizer s))
             \<and> kind (program (tokenizer s) ! i) = LETTER
             \<and> kind (program (tokenizer s) ! Suc i) = EQUAL
             \<and> c = tolower (letter (program (tokenizer s) ! i))"
proof -
  from assms consider "tok s = LETTER" "tok (advance s) = EQUAL"
      "c = tolower (get_token_data (tokenizer s))"
    | "tok (advance s) = LETTER" "tok (advance (advance s)) = EQUAL"
      "c = tolower (get_token_data (tokenizer (advance s)))"
    by (auto simp: assigns_def)
  then show ?thesis
  proof cases
    case 1
    with tok_LETTER_entry [of s] show ?thesis by auto
  next
    case 2
    moreover have "program (tokenizer (advance s)) = program (tokenizer s)"
      by (simp add: advance_def next_token_def)
    ultimately show ?thesis using tok_LETTER_entry [of "advance s"] by auto
  qed
qed

lemma statement_assigned: "statement s = Inr s' \<Longrightarrow> kept s s' \<and> assigned s s'"
  using statement_kept [of s s'] assigns_entry [of s] by (fastforce simp: assigned_def)

lemma line_statement_assigned:
  assumes "line_statement s = Inr s'"
  shows "kept s s' \<and> assigned s s'"
proof -
  let ?s1 = "skip_empty_lines s"
  let ?s2 = "if tok ?s1 = NUMBER then advance ?s1 else ?s1"
  have m: "moved s ?s2"
    using moved_skip_empty_lines [of s] moved_trans [OF moved_skip_empty_lines moved_advance]
    by simp
  note k = moved_kept [OF m]
  show ?thesis
  proof (cases "tok ?s1 = EOF_TOKEN")
    case True
    with assms have "s' = ?s1\<lparr>execution_finished := True\<rparr>"
      by (simp add: line_statement_def Let_def)
    with moved_kept [OF moved_skip_empty_lines [of s]] show ?thesis
      by (simp add: kept_def assigned_def)
  next
    case False
    with assms have "statement ?s2 = Inr s'" by (simp add: line_statement_def Let_def)
    from statement_assigned [OF this] k show ?thesis
      by (auto simp: kept_def assigned_def)
  qed
qed

subsection \<open>The variable store\<close>

text \<open>
  Modelled from the spec: a letter token carries one of the letter identifiers, a letter
  \<open>A\<close> to \<open>Z\<close> or \<open>a\<close> to \<open>z\<close>. \<open>letters_ok P\<close> says so of the tokens \<open>P\<close>.
\<close>

definition uppercase_letters :: "char list" where
  "uppercase_letters = ''ABCDEFGHIJKLMNOPQRSTUVWXYZ''"

definition is_alpha :: "char \<Rightarrow> bool" where
  "is_alpha c \<longleftrightarrow> c \<in> set uppercase_letters \<or> c \<in> set lowercase_letters"

definition letters_ok :: "token list \<Rightarrow> bool" where
  "letters_ok P = list_all (\<lambda>e. kind e = LETTER \<longrightarrow> is_alpha (letter e)) P"

definition vars_ok :: "SUBARUU \<Rightarrow> bool" where
  "vars_ok s \<longleftrightarrow> dom (variables s) = set lowercase_letters"

lemma tolower_letters:
  "list_all (\<lambda>c. tolower c \<in> set lowercase_letters) (uppercase_letters @ lowercase_letters)"
  by code_simp

lemma tolower_alpha: "is_alpha c \<Longrightarrow> tolower c \<in> set lowercase_letters"
  using tolower_letters by (auto simp: is_alpha_def list_all_iff)

lemma assigned_vars_ok:
  assumes "letters_ok (program (tokenizer s))" "assigned s s'" "vars_ok s"
  shows "vars_ok s'"
proof (cases "variables s' = variables s")
  case True
  with assms(3) show ?thesis by (simp add: vars_ok_def)
next
  case False
  with assms(2) obtain i v where i: "Suc i < length (program (tokenizer s))"
    "kind (program (tokenizer s) ! i) = LETTER"
    and v: "variables s' = (variables s)(tolower (letter (program (tokenizer s) ! i)) \<mapsto> v)"
    by (auto simp: assigned_def)
  let ?e = "program (tokenizer s) ! i"
  from i have "?e \<in> set (program (tokenizer s))" by simp
  with assms(1) i have "is_alpha (letter ?e)" by (auto simp: letters_ok_def list_all_iff)
  then have "tolower (letter ?e) \<in> set lowercase_letters" by (rule tolower_alpha)
  with assms(3) v show ?thesis by (auto simp: vars_ok_def)
qed

text \<open>
  One round of the loop of \<open>run\<close> keeps the line index and the program and assigns at
  most one register; so does every run.
\<close>

definition one_round :: "SUBARUU \<Rightarrow> SUBARUU \<Rightarrow> bool" where
  "one_round s s' \<longleftrightarrow> kept s s' \<and> assigned s s'"

lemma run_loop_rounds: "run_loop k s = Some (Inr s') \<Longrightarrow> one_round\<^sup>*\<^sup>* s s'"
proof (induction k arbitrary: s)
  case 0
  then show ?case by simp
next
  case (Suc k)
  have via: "one_round\<^sup>*\<^sup>* s s'" if "kept s s1" "assigned s s1" "run_loop k s1 = Some (Inr s')" for s1
  proof -
    from that(1,2) have r: "one_round s s1" by (simp add: one_round_def)
    from r Suc.IH [OF that(3)] show ?thesis by (rule converse_rtranclp_into_rtranclp)
  qed
  show ?case
  proof (cases "execution_finished s")
    case True
    with Suc.prems show ?thesis by simp
  next
    case ef: False
    show ?thesis
    proof (cases "finished (tokenizer s)")
      case True
      with ef Suc.prems have "s' = s\<lparr>execution_finished := True\<rparr>" by simp
      then have "one_round s s'" by (simp add: one_round_def kept_def assigned_def)
      then show ?thesis by (rule r_into_rtranclp)
    next
      case nf: False
      show ?thesis
      proof (cases "skip_to_line s")
        case False
        with ef nf Suc.prems obtain s1 where l: "line_statement s = Inr s1"
          and r: "run_loop k s1 = Some (Inr s')"
          by (auto split: sum.splits)
        from line_statement_assigned [OF l] r show ?thesis by (intro via [of s1]) simp_all
      next
        case sk: True
        show ?thesis
        proof (cases "tok s = NUMBER \<and> get_num (tokenizer s) = target_line s")
          case True
          let ?x = "advance (s\<lparr>skip_to_line := False, target_line := - 1\<rparr>)"
          from True sk ef nf Suc.prems obtain s1 where l: "statement ?x = Inr s1"
            and r: "run_loop k s1 = Some (Inr s')"
            by (auto simp: Let_def split: sum.splits)
          have x: "kept s ?x" "variables ?x = variables s"
            "program (tokenizer ?x) = program (tokenizer s)"
            by (simp_all add: kept_def advance_def next_token_def)
          from statement_assigned [OF l] x have "kept s s1" "assigned s s1"
            by (auto simp: kept_def assigned_def)
          with r show ?thesis by (intro via [of s1]) simp_all
        next
          case False
          with sk ef nf Suc.prems have r: "run_loop k (skip_line s) = Some (Inr s')"
            by (auto simp: Let_def split: if_splits)
          from moved_kept [OF moved_skip_line [of s]] r show ?thesis
            by (intro via [of "skip_line s"]) (simp_all add: assigned_def)
        qed
      qed
    qed
  qed
qed

lemma rounds_kept: "one_round\<^sup>*\<^sup>* s s' \<Longrightarrow> kept s s'"
  by (induction rule: rtranclp_induct) (auto simp: one_round_def intro: kept_trans)

lemma rounds_vars_ok:
  assumes "one_round\<^sup>*\<^sup>* s s'" "letters_ok (program (tokenizer s))" "vars_ok s"
  shows "vars_ok s'"
  using assms
proof (induction rule: rtranclp_induct)
  case base
  then show ?case by simp
next
  case (step y z)
  from rounds_kept [OF step.hyps(1)] step.prems(1)
  have "letters_ok (program (tokenizer y))" by (simp add: kept_def)
  with step show ?case using assigned_vars_ok [of y z] by (simp add: one_round_def)
qed

text \<open>
  \<open>assigned_in P c\<close>: among the tokens \<open>P\<close>, a letter token of the register \<open>c\<close> stands
  before an \<open>=\<close>. Only there can a statement assign the register.
\<close>

definition assigned_in :: "token list \<Rightarrow> char \<Rightarrow> bool" where
  "assigned_in P c =
     list_ex (\<lambda>i. kind (P ! i) = LETTER \<and> kind (P ! Suc i) = EQUAL \<and> tolower (letter (P ! i)) = c)
       [0..<length P - 1]"

lemma rounds_unassigned:
  assumes "one_round\<^sup>*\<^sup>* s s'" "\<not> assigned_in (program (tokenizer s)) c"
  shows "variables s' c = variables s c"
  using assms
proof (induction rule: rtranclp_induct)
  case base
  show ?case by simp
next
  case (step y z)
  from rounds_kept [OF step.hyps(1)] step.prems
  have n: "\<not> assigned_in (program (tokenizer y)) c" by (simp add: kept_def)
  from step.hyps(2) have "assigned y z" by (simp add: one_round_def)
  with n have "variables z c = variables y c"
    by (auto simp: assigned_def assigned_in_def list_ex_iff)
  with step show ?case by simp
qed

lemma fold_zero:
  "fold (\<lambda>c m. m(c \<mapsto> (0 :: cint))) xs m = (\<lambda>c. if c \<in> set xs then Some 0 else m c)"
  by (induction xs arbitrary: m) (auto simp: fun_eq_iff)

lemma init_variables:
  "variables (SUBARUU_init src) = (\<lambda>c. if c \<in> set lowercase_letters then Some 0 else None)"
  by (simp add: SUBARUU_init_def fold_zero)

lemma lowercase_distinct: "distinct lowercase_letters \<and> length lowercase_letters = 26"
  by code_simp

lemma card_lowercase: "card (set lowercase_letters) = 26"
  using lowercase_distinct distinct_card [of lowercase_letters] by simp

lemma factor_letter:
  "tok s = LETTER \<Longrightarrow>
     factor s = Inr (case variables s (tolower (get_token_data (tokenizer s))) of
                       Some v \<Rightarrow> v | None \<Rightarrow> 0, advance s)"
  by (simp add: factor.simps [of s])

lemma build_line_map_others:
  "variables (build_line_map s) = variables s
   \<and> program (tokenizer (build_line_map s)) = program (tokenizer s)"
  using build_loop_others [of "s\<lparr>line_positions := Map.empty, tokenizer := reset (tokenizer s)\<rparr>"]
  by (simp add: build_line_map_def Let_def reset_def)

lemma run_rounds:
  assumes "run k s = Some (Inr s')"
  shows "one_round\<^sup>*\<^sup>* (build_line_map s) s'"
  using assms by (simp add: run_def run_loop_rounds)

lemma run_vars_ok:
  assumes "letters_ok src" "run k (SUBARUU_init src) = Some (Inr s')"
  shows "dom (variables s') = set lowercase_letters"
proof -
  let ?b = "build_line_map (SUBARUU_init src)"
  have p: "program (tokenizer ?b) = src" "variables ?b = variables (SUBARUU_init src)"
    using build_line_map_others [of "SUBARUU_init src"] by (simp_all add: SUBARUU_init_def)
  then have "vars_ok ?b" by (auto simp: vars_ok_def init_variables split: if_splits)
  with rounds_vars_ok [OF run_rounds [OF assms(2)]] assms(1) p show ?thesis
    by (simp add: vars_ok_def)
qed

lemma run_unassigned:
  assumes "run k (SUBARUU_init src) = Some (Inr s')" "c \<in> set lowercase_letters"
    "\<not> assigned_in src c"
  shows "variables s' c = Some 0"
proof -
  let ?b = "build_line_map (SUBARUU_init src)"
  have p: "program (tokenizer ?b) = src" "variables ?b = variables (SUBARUU_init src)"
    using build_line_map_others [of "SUBARUU_init src"] by (simp_all add: SUBARUU_init_def)
  with rounds_unassigned [OF run_rounds [OF assms(1)], of c] assms(2,3) show ?thesis
    by (simp add: init_variables)
qed

lemma statement_vars_ok:
  assumes "letters_ok (program (tokenizer s))" "dom (variables s) = set lowercase_letters"
    "statement s = Inr s'"
  shows "dom (variables s') = set lowercase_letters"
  using assigned_vars_ok [of s s'] statement_assigned [OF assms(3)] assms(1,2)
  by (simp add: vars_ok_def)

lemma statement_unassigned:
  assumes "statement s = Inr s'" "\<not> assigns s c"
  shows "variables s' c = variables s c"
  using statement_kept [OF assms(1)] assms(2) by auto

text \<open>
  C8. The constructor gives the store exactly the 26 registers \<open>a\<close> to \<open>z\<close>, all 0.
  Evaluating an expression does not change the store, and a statement of a program whose
  letter tokens carry letters leaves the store with exactly these 26 registers; so has a
  run at its end. Reading a letter as a factor never fails: it yields the value of the
  letter's register and consumes the token. A statement that does not assign a register
  leaves its value, and a register that the program nowhere assigns (no letter token of it
  stands before an \<open>=\<close>) is 0 at the end of a run, whether or not the program reads it.
\<close>

theorem variable_store_invariant:
  "dom (variables (SUBARUU_init src)) = set lowercase_letters
   \<and> card (set lowercase_letters) = 26
   \<and> (\<forall>c\<in>set lowercase_letters. variables (SUBARUU_init src) c = Some 0)
   \<and> (expression s = Inr (v, s') \<longrightarrow> variables s' = variables s)
   \<and> (letters_ok (program (tokenizer s)) \<and> dom (variables s) = set lowercase_letters
        \<and> statement s = Inr s' \<longrightarrow> dom (variables s') = set lowercase_letters)
   \<and> (letters_ok src \<and> run k (SUBARUU_init src) = Some (Inr s') \<longrightarrow>
        dom (variables s') = set lowercase_letters)
   \<and> (tok s = LETTER \<longrightarrow>
        factor s = Inr (case variables s (tolower (get_token_data (tokenizer s))) of
                          Some v \<Rightarrow> v | None \<Rightarrow> 0, advance s))
   \<and> (statement s = Inr s' \<and> \<not> assigns s c \<longrightarrow> variables s' c = variables s c)
   \<and> (run k (SUBARUU_init src) = Some (Inr s') \<and> c \<in> set lowercase_letters \<and> \<not> assigned_in src c
        \<longrightarrow> variables s' c = Some 0)"
proof (intro conjI impI ballI)
  show "dom (variables (SUBARUU_init src)) = set lowercase_letters"
    by (auto simp: init_variables split: if_splits)
  show "card (set lowercase_letters) = 26" by (rule card_lowercase)
  show "variables (SUBARUU_init src) c = Some 0" if "c \<in> set lowercase_letters" for c
    using that by (simp add: init_variables)
  show "variables s' = variables s" if "expression s = Inr (v, s')"
    using frame_expression [OF that] by (simp add: frame_def)
  show "dom (variables s') = set lowercase_letters"
    if "letters_ok (program (tokenizer s)) \<and> dom (variables s) = set lowercase_letters
        \<and> statement s = Inr s'"
    using that statement_vars_ok [of s s'] by simp
  show "dom (variables s') = set lowercase_letters"
    if "letters_ok src \<and> run k (SUBARUU_init src) = Some (Inr s')"
    using that run_vars_ok [of src k s'] by simp
  show "factor s = Inr (case variables s (tolower (get_token_data (tokenizer s))) of
                          Some v \<Rightarrow> v | None \<Rightarrow> 0, advance s)" if "tok s = LETTER"
    using that by (rule factor_letter)
  show "variables s' c = variables s c" if "statement s = Inr s' \<and> \<not> assigns s c"
    using that statement_unassigned [of s s' c] by simp
  show "variables s' c = Some 0"
    if "run k (SUBARUU_init src) = Some (Inr s') \<and> c \<in> set lowercase_letters \<and> \<not> assigned_in src c"
    using that run_unassigned [of k src s' c] by simp
qed


text \<open>The program \<open>10 LET B = 5 / 20 PRINT A\<close>.\<close>

definition store_tokens :: "token list" where
  "store_tokens = [tnum 10 CHR '' '', tk LET CHR '' '', tlet CHR ''B'' CHR '' '',
                   tk EQUAL CHR '' '', tnum 5 CHR 0x0A, tk EOL CHR ''2'',
                   tnum 20 CHR '' '', tk PRINT CHR '' '', tlet CHR ''A'' CHR 0x0A,
                   tk EOL CHR 0x00]"

lemma store_tokens_facts:
  "letters_ok store_tokens
   \<and> \<not> assigned_in store_tokens CHR ''a''
   \<and> CHR ''a'' \<in> set lowercase_letters
   \<and> tok (indexed_at 8 store_tokens) = LETTER
   \<and> variables (indexed_at 8 store_tokens)
        (tolower (get_token_data (tokenizer (indexed_at 8 store_tokens)))) = Some 0
   \<and> letters_ok (program (tokenizer (indexed_at 1 store_tokens)))
   \<and> \<not> isl (statement (indexed_at 1 store_tokens))
   \<and> \<not> assigns (indexed_at 1 store_tokens) CHR ''a''
   \<and> variables (indexed_at 1 store_tokens) CHR ''a'' = Some 0"
  by code_simp

lemma store_tokens_run:
  "(case run 3 (SUBARUU_init store_tokens) of
      Some (Inr s) \<Rightarrow> variables s CHR ''b'' = Some 5 \<and> cout s = ''0'' @ [CHR 0x0A]
    | _ \<Rightarrow> False)"
  by code_simp

theorem variable_store_invariant_witness:
  "letters_ok store_tokens
   \<and> run 3 (SUBARUU_init store_tokens)
       = Some (Inr (projr (the (run 3 (SUBARUU_init store_tokens)))))
   \<and> dom (variables (projr (the (run 3 (SUBARUU_init store_tokens))))) = set lowercase_letters
   \<and> variables (projr (the (run 3 (SUBARUU_init store_tokens)))) CHR ''b'' = Some 5
   \<and> variables (projr (the (run 3 (SUBARUU_init store_tokens)))) CHR ''a'' = Some 0
   \<and> cout (projr (the (run 3 (SUBARUU_init store_tokens)))) = ''0'' @ [CHR 0x0A]
   \<and> tok (indexed_at 8 store_tokens) = LETTER
   \<and> factor (indexed_at 8 store_tokens) = Inr (0, advance (indexed_at 8 store_tokens))
   \<and> statement (indexed_at 1 store_tokens)
       = Inr (projr (statement (indexed_at 1 store_tokens)))
   \<and> dom (variables (projr (statement (indexed_at 1 store_tokens)))) = set lowercase_letters
   \<and> variables (projr (statement (indexed_at 1 store_tokens))) CHR ''a'' = Some 0"
proof -
  let ?r = "projr (the (run 3 (SUBARUU_init store_tokens)))"
  let ?s = "indexed_at 1 store_tokens"
  let ?x = "projr (statement ?s)"
  have l: "letters_ok store_tokens" using store_tokens_facts by simp
  have r: "run 3 (SUBARUU_init store_tokens) = Some (Inr ?r)"
    using store_tokens_run by (auto split: option.splits sum.splits)
  have b: "variables ?r CHR ''b'' = Some 5"
    using store_tokens_run by (auto split: option.splits sum.splits)
  have d: "dom (variables ?r) = set lowercase_letters"
    using variable_store_invariant [where src = store_tokens and s' = ?r and k = 3] l r by simp
  have c: "variables ?r CHR ''a'' = Some 0"
    using variable_store_invariant [where src = store_tokens and s' = ?r and k = 3
        and c = "CHR ''a''"] r store_tokens_facts
    by simp
  have o: "cout ?r = ''0'' @ [CHR 0x0A]"
    using store_tokens_run by (auto split: option.splits sum.splits)
  have t: "tok (indexed_at 8 store_tokens) = LETTER" using store_tokens_facts by simp
  have f: "factor (indexed_at 8 store_tokens) = Inr (0, advance (indexed_at 8 store_tokens))"
    using variable_store_invariant [where s = "indexed_at 8 store_tokens"] t
      store_tokens_facts by simp
  have st: "statement ?s = Inr ?x" using store_tokens_facts by simp
  have i0: "dom (variables ?s) = set lowercase_letters"
    using build_line_map_others [of "at_token 0 store_tokens"]
    by (auto simp: indexed_at_def at_token_def init_variables split: if_splits)
  have dx: "dom (variables ?x) = set lowercase_letters"
    using variable_store_invariant [where s = ?s and s' = ?x] st i0 store_tokens_facts by simp
  have ax: "variables ?x CHR ''a'' = Some 0"
    using variable_store_invariant [where s = ?s and s' = ?x and c = "CHR ''a''"] st store_tokens_facts
    by simp
  show ?thesis by (intro conjI l r d b c o t f st dx ax)
qed

subsection \<open>When the line index is built\<close>














end
